theory Spec2Isabelle
  imports Main "HOL-Library.AList" "HOL-Library.Char_ord" "HOL-Library.List_Lexorder"
begin

section \<open>Strings and paths\<close>

text \<open>
  The driver computes every file name with Go's \<open>path/filepath\<close> and \<open>strings\<close>
  packages on a system whose separator is the slash. A Go string is a byte sequence,
  here a \<^typ>\<open>string\<close>.
\<close>

definition HasPrefix :: "string \<Rightarrow> string \<Rightarrow> bool" where
  "HasPrefix s pre = (take (length pre) s = pre)"

text \<open>\<open>strings.Count\<close> for a separator of one byte: the number of its occurrences.\<close>

definition Count :: "string \<Rightarrow> char \<Rightarrow> nat" where
  "Count s c = length (filter (\<lambda>x. x = c) s)"

fun Contains :: "string \<Rightarrow> string \<Rightarrow> bool" where
  "Contains [] sub = (sub = [])"
| "Contains (c # cs) sub = (HasPrefix (c # cs) sub \<or> Contains cs sub)"

text \<open>Splitting at every slash, and \<open>strings.Join\<close> with the slash.\<close>

fun split_path :: "string \<Rightarrow> string list" where
  "split_path [] = [[]]"
| "split_path (c # cs) =
     (if c = CHR ''/'' then [] # split_path cs
      else (case split_path cs of [] \<Rightarrow> [[c]] | w # ws \<Rightarrow> (c # w) # ws))"

fun join_path :: "string list \<Rightarrow> string" where
  "join_path [] = []"
| "join_path [w] = w"
| "join_path (w # v # ws) = w @ CHR ''/'' # join_path (v # ws)"

text \<open>The path elements \<open>Clean\<close> keeps apart from \<open>..\<close>: neither empty nor a dot.\<close>

definition elements :: "string \<Rightarrow> string list" where
  "elements s = filter (\<lambda>w. w \<noteq> [] \<and> w \<noteq> ''.'') (split_path s)"

text \<open>
  One element of \<open>filepath.Clean\<close>'s loop. The stack holds the elements written so
  far, the last one first. A \<open>..\<close> removes the element before it when that is a real
  name; otherwise it is kept on a relative path and dropped on a rooted one.
\<close>

definition clean_step :: "bool \<Rightarrow> string list \<Rightarrow> string \<Rightarrow> string list" where
  "clean_step rooted stk e =
     (if e = ''..'' then
        (if stk \<noteq> [] \<and> hd stk \<noteq> ''..'' then tl stk
         else if \<not> rooted then ''..'' # stk
         else stk)
      else e # stk)"

definition canon :: "bool \<Rightarrow> string list \<Rightarrow> string list" where
  "canon rooted es = rev (foldl (clean_step rooted) [] es)"

definition is_rooted :: "string \<Rightarrow> bool" where
  "is_rooted s = (s \<noteq> [] \<and> hd s = CHR ''/'')"

definition render :: "bool \<Rightarrow> string list \<Rightarrow> string" where
  "render rooted es =
     (if rooted then CHR ''/'' # join_path es
      else if es = [] then ''.'' else join_path es)"

definition Clean :: "string \<Rightarrow> string" where
  "Clean path =
     (if path = [] then ''.''
      else render (is_rooted path) (canon (is_rooted path) (elements path)))"

text \<open>\<open>filepath.Join\<close>: leading empty elements are skipped, the rest joined and cleaned.\<close>

definition Join :: "string list \<Rightarrow> string" where
  "Join elem =
     (case dropWhile (\<lambda>e. e = []) elem of
        [] \<Rightarrow> []
      | es \<Rightarrow> Clean (join_path es))"

section \<open>The file system\<close>

text \<open>
  The file system is a tree of directories and regular files, without links, devices or
  permissions, so a call fails only for the shape of the tree. A directory is an
  association list from names to nodes; a path inside the tree is the list of names from
  the root.
\<close>

datatype node = File string | Dir "(string \<times> node) list"

datatype errno = ENOENT | ENOTDIR | EISDIR | EEXIST | ENOTEMPTY | EINVAL | EBUSY | EBADF

fun errno_text :: "errno \<Rightarrow> string" where
  "errno_text ENOENT = ''no such file or directory''"
| "errno_text ENOTDIR = ''not a directory''"
| "errno_text EISDIR = ''is a directory''"
| "errno_text EEXIST = ''file exists''"
| "errno_text ENOTEMPTY = ''directory not empty''"
| "errno_text EINVAL = ''invalid argument''"
| "errno_text EBUSY = ''device or resource busy''"
| "errno_text EBADF = ''bad file descriptor''"

text \<open>
  Go's error values: one made by \<open>fmt.Errorf\<close>, an \<open>*os.PathError\<close> (operation,
  path, cause), an \<open>*os.LinkError\<close> (operation, old, new, cause), or one of the JSON
  package. \<open>Error\<close> is the method \<open>err.Error()\<close>.
\<close>

datatype error =
    Errorf string
  | PathError string string errno
  | LinkError string string string errno
  | JSONError string

fun Error :: "error \<Rightarrow> string" where
  "Error (Errorf s) = s"
| "Error (PathError opn p e) = opn @ '' '' @ p @ '': '' @ errno_text e"
| "Error (LinkError opn p q e) = opn @ '' '' @ p @ '' '' @ q @ '': '' @ errno_text e"
| "Error (JSONError s) = s"

record filesystem =
  cwd :: "string list"
  tree :: node

fun lookup :: "string list \<Rightarrow> node \<Rightarrow> errno + node" where
  "lookup [] n = Inr n"
| "lookup (x # p) n =
     (case n of
        File _ \<Rightarrow> Inl ENOTDIR
      | Dir es \<Rightarrow> (case map_of es x of None \<Rightarrow> Inl ENOENT | Some m \<Rightarrow> lookup p m))"

text \<open>Binding a name in an existing directory to a node, in place of what it held.\<close>

fun put_node :: "string list \<Rightarrow> node \<Rightarrow> node \<Rightarrow> errno + node" where
  "put_node [] new n = Inl EBUSY"
| "put_node [x] new n =
     (case n of
        File _ \<Rightarrow> Inl ENOTDIR
      | Dir es \<Rightarrow> Inr (Dir (AList.update x new es)))"
| "put_node (x # y # p) new n =
     (case n of
        File _ \<Rightarrow> Inl ENOTDIR
      | Dir es \<Rightarrow>
          (case map_of es x of
             None \<Rightarrow> Inl ENOENT
           | Some m \<Rightarrow>
               (case put_node (y # p) new m of
                  Inl e \<Rightarrow> Inl e
                | Inr m' \<Rightarrow> Inr (Dir (AList.update x m' es)))))"

text \<open>Unbinding a name together with everything below it.\<close>

fun remove_node :: "string list \<Rightarrow> node \<Rightarrow> node" where
  "remove_node [] n = n"
| "remove_node [x] n = (case n of File _ \<Rightarrow> n | Dir es \<Rightarrow> Dir (AList.delete x es))"
| "remove_node (x # y # p) n =
     (case n of
        File _ \<Rightarrow> n
      | Dir es \<Rightarrow>
          (case map_of es x of
             None \<Rightarrow> n
           | Some m \<Rightarrow> Dir (AList.update x (remove_node (y # p) m) es)))"

text \<open>
  A path name is resolved against the root when it starts with a slash and against the
  working directory otherwise, which must then exist. Dots are resolved on the name alone;
  without links this is exact for a cleaned name, and the driver passes no other.
\<close>

definition resolve :: "filesystem \<Rightarrow> string \<Rightarrow> errno + string list" where
  "resolve fs name =
     (if name = [] then Inl ENOENT
      else if is_rooted name then Inr (canon True (elements name))
      else (case lookup (cwd fs) (tree fs) of
              Inr (Dir _) \<Rightarrow> Inr (canon True (cwd fs @ elements name))
            | _ \<Rightarrow> Inl ENOENT))"

definition IsDir :: "node \<Rightarrow> bool" where
  "IsDir n = (case n of Dir _ \<Rightarrow> True | File _ \<Rightarrow> False)"

definition IsRegular :: "node \<Rightarrow> bool" where
  "IsRegular n = (case n of File _ \<Rightarrow> True | Dir _ \<Rightarrow> False)"

definition os_Stat :: "filesystem \<Rightarrow> string \<Rightarrow> error + node" where
  "os_Stat fs name =
     (case resolve fs name of
        Inl e \<Rightarrow> Inl (PathError ''stat'' name e)
      | Inr p \<Rightarrow>
          (case lookup p (tree fs) of
             Inl e \<Rightarrow> Inl (PathError ''stat'' name e)
           | Inr n \<Rightarrow> Inr n))"

text \<open>Without links \<open>lstat\<close> finds what \<open>stat\<close> finds.\<close>

definition lstat :: "filesystem \<Rightarrow> string \<Rightarrow> errno + node" where
  "lstat fs name = (case resolve fs name of Inl e \<Rightarrow> Inl e | Inr p \<Rightarrow> lookup p (tree fs))"

text \<open>The system call mkdir(2): one new directory, in a directory that exists.\<close>

definition os_Mkdir :: "filesystem \<Rightarrow> string \<Rightarrow> error + filesystem" where
  "os_Mkdir fs name =
     (case resolve fs name of
        Inl e \<Rightarrow> Inl (PathError ''mkdir'' name e)
      | Inr p \<Rightarrow>
          (case lookup p (tree fs) of
             Inr _ \<Rightarrow> Inl (PathError ''mkdir'' name EEXIST)
           | Inl _ \<Rightarrow>
               (case put_node p (Dir []) (tree fs) of
                  Inl e \<Rightarrow> Inl (PathError ''mkdir'' name e)
                | Inr t \<Rightarrow> Inr (fs\<lparr>tree := t\<rparr>))))"

text \<open>
  \<open>os.MkdirAll\<close> as Go has it: done when \<open>stat\<close> finds a directory, an error when it
  finds a file; otherwise the parent is made first, which is the path up to the slash
  before its last element, and then the directory itself. \<open>elem_start\<close> is the index
  \<open>j\<close> where the last element starts, the slashes after it left aside.
\<close>

definition elem_start :: "string \<Rightarrow> nat" where
  "elem_start path =
     length (dropWhile (\<lambda>c. c \<noteq> CHR ''/'') (dropWhile (\<lambda>c. c = CHR ''/'') (rev path)))"

function os_MkdirAll :: "filesystem \<Rightarrow> string \<Rightarrow> error + filesystem" where
  "os_MkdirAll fs path =
     (case os_Stat fs path of
        Inr d \<Rightarrow> if IsDir d then Inr fs else Inl (PathError ''mkdir'' path ENOTDIR)
      | Inl _ \<Rightarrow>
          (case (if 1 < elem_start path then os_MkdirAll fs (take (elem_start path - 1) path)
                 else Inr fs) of
             Inl e \<Rightarrow> Inl e
           | Inr fs1 \<Rightarrow>
               (case os_Mkdir fs1 path of
                  Inr fs2 \<Rightarrow> Inr fs2
                | Inl e \<Rightarrow> (case lstat fs1 path of Inr (Dir _) \<Rightarrow> Inr fs1 | _ \<Rightarrow> Inl e))))"
  by pat_completeness auto

termination os_MkdirAll
proof (relation "measure (\<lambda>(fs, path). length path)")
  show "wf (measure (\<lambda>(fs, path). length path))" by simp
next
  fix fs :: filesystem and path :: string and x :: error
  assume j: "1 < elem_start path"
  have "elem_start path \<le> length (dropWhile (\<lambda>c. c = CHR ''/'') (rev path))"
    unfolding elem_start_def by (rule length_dropWhile_le)
  also have "\<dots> \<le> length (rev path)" by (rule length_dropWhile_le)
  finally have "elem_start path \<le> length path" by simp
  with j show "((fs, take (elem_start path - 1) path), (fs, path)) \<in>
      measure (\<lambda>(fs, path). length path)"
    by simp
qed

declare os_MkdirAll.simps [simp del]

text \<open>
  \<open>ioutil.WriteFile\<close> is two calls on the file system: it opens the file, creating it
  or cutting it to length zero, and then writes the data at the start of the open file.
\<close>

definition open_trunc :: "filesystem \<Rightarrow> string \<Rightarrow> error + filesystem" where
  "open_trunc fs name =
     (case resolve fs name of
        Inl e \<Rightarrow> Inl (PathError ''open'' name e)
      | Inr p \<Rightarrow>
          (case lookup p (tree fs) of
             Inr (Dir _) \<Rightarrow> Inl (PathError ''open'' name EISDIR)
           | _ \<Rightarrow>
               (case put_node p (File []) (tree fs) of
                  Inl e \<Rightarrow> Inl (PathError ''open'' name e)
                | Inr t \<Rightarrow> Inr (fs\<lparr>tree := t\<rparr>))))"

definition overwrite :: "string \<Rightarrow> string \<Rightarrow> string" where
  "overwrite data old = data @ drop (length data) old"

definition write_at :: "filesystem \<Rightarrow> string \<Rightarrow> string \<Rightarrow> error + filesystem" where
  "write_at fs name data =
     (case resolve fs name of
        Inl e \<Rightarrow> Inl (PathError ''write'' name e)
      | Inr p \<Rightarrow>
          (case lookup p (tree fs) of
             Inr (File old) \<Rightarrow>
               (case put_node p (File (overwrite data old)) (tree fs) of
                  Inl e \<Rightarrow> Inl (PathError ''write'' name e)
                | Inr t \<Rightarrow> Inr (fs\<lparr>tree := t\<rparr>))
           | _ \<Rightarrow> Inl (PathError ''write'' name EBADF)))"

text \<open>The result of \<open>ioutil.WriteFile\<close>, with the file system after each of its calls.\<close>

definition ioutil_WriteFile ::
  "filesystem \<Rightarrow> string \<Rightarrow> string \<Rightarrow> error option \<times> filesystem list" where
  "ioutil_WriteFile fs name data =
     (case open_trunc fs name of
        Inl e \<Rightarrow> (Some e, [])
      | Inr fs1 \<Rightarrow>
          (case write_at fs1 name data of
             Inl e \<Rightarrow> (Some e, [fs1])
           | Inr fs2 \<Rightarrow> (None, [fs1, fs2])))"

text \<open>
  The system call rename(2): a file replaces a file but not a directory, a directory
  replaces only an empty directory and cannot move below itself.
\<close>

definition sys_rename :: "filesystem \<Rightarrow> string \<Rightarrow> string \<Rightarrow> errno + filesystem" where
  "sys_rename fs old new =
     (case (resolve fs old, resolve fs new) of
        (Inl e, _) \<Rightarrow> Inl e
      | (_, Inl e) \<Rightarrow> Inl e
      | (Inr po, Inr pn) \<Rightarrow>
          (case lookup po (tree fs) of
             Inl e \<Rightarrow> Inl e
           | Inr n \<Rightarrow>
               if po = [] \<or> pn = [] then Inl EBUSY
               else if po = pn then Inr fs
               else if IsDir n \<and> take (length po) pn = po then Inl EINVAL
               else
                 (case (n, lookup pn (tree fs)) of
                    (File _, Inr (Dir _)) \<Rightarrow> Inl EISDIR
                  | (Dir _, Inr (File _)) \<Rightarrow> Inl ENOTDIR
                  | (Dir _, Inr (Dir (_ # _))) \<Rightarrow> Inl ENOTEMPTY
                  | _ \<Rightarrow>
                      (case put_node pn n (remove_node po (tree fs)) of
                         Inl e \<Rightarrow> Inl e
                       | Inr t \<Rightarrow> Inr (fs\<lparr>tree := t\<rparr>)))))"

text \<open>
  \<open>os.Rename\<close>: before the system call Go refuses a new name that is an existing
  directory, unless the two names are different names of the same file.
\<close>

definition os_Rename :: "filesystem \<Rightarrow> string \<Rightarrow> string \<Rightarrow> error + filesystem" where
  "os_Rename fs old new =
     (case (case lstat fs new of
              Inr (Dir _) \<Rightarrow>
                (case lstat fs old of
                   Inl e \<Rightarrow> Some e
                 | Inr _ \<Rightarrow>
                     if new = old \<or> resolve fs new \<noteq> resolve fs old then Some EEXIST else None)
            | _ \<Rightarrow> None) of
        Some e \<Rightarrow> Inl (LinkError ''rename'' old new e)
      | None \<Rightarrow>
          (case sys_rename fs old new of
             Inl e \<Rightarrow> Inl (LinkError ''rename'' old new e)
           | Inr fs' \<Rightarrow> Inr fs'))"

definition ioutil_ReadFile :: "filesystem \<Rightarrow> string \<Rightarrow> error + string" where
  "ioutil_ReadFile fs name =
     (case resolve fs name of
        Inl e \<Rightarrow> Inl (PathError ''open'' name e)
      | Inr p \<Rightarrow>
          (case lookup p (tree fs) of
             Inl e \<Rightarrow> Inl (PathError ''open'' name e)
           | Inr (Dir _) \<Rightarrow> Inl (PathError ''read'' name EISDIR)
           | Inr (File b) \<Rightarrow> Inr b))"

text \<open>\<open>ioutil.ReadDir\<close>: the names of a directory's entries, sorted.\<close>

definition ioutil_ReadDir :: "filesystem \<Rightarrow> string \<Rightarrow> error + string list" where
  "ioutil_ReadDir fs name =
     (case resolve fs name of
        Inl e \<Rightarrow> Inl (PathError ''open'' name e)
      | Inr p \<Rightarrow>
          (case lookup p (tree fs) of
             Inl e \<Rightarrow> Inl (PathError ''open'' name e)
           | Inr (File _) \<Rightarrow> Inl (PathError ''readdirent'' name ENOTDIR)
           | Inr (Dir es) \<Rightarrow> Inr (sort (remdups (map fst es)))))"

text \<open>
  \<open>os.IsNotExist\<close>: the error of a system call that found no such file or directory.
\<close>

definition IsNotExist :: "error \<Rightarrow> bool" where
  "IsNotExist err =
     (case err of
        PathError _ _ e \<Rightarrow> e = ENOENT
      | LinkError _ _ _ e \<Rightarrow> e = ENOENT
      | _ \<Rightarrow> False)"

text \<open>
  The system calls unlink(2) and rmdir(2) look at the final element of the name before
  they look at the file: the root (no element at all), a dot and two dots are never
  unlinked, and \<open>rmdir\<close> reports them busy, invalid and not empty. \<open>do_unlink\<close> and
  \<open>do_rmdir\<close> are the calls on a path that is already resolved.
\<close>

definition final_elem :: "string \<Rightarrow> string" where
  "final_elem name =
     (case rev (filter (\<lambda>w. w \<noteq> []) (split_path name)) of [] \<Rightarrow> [] | w # _ \<Rightarrow> w)"

definition do_unlink :: "filesystem \<Rightarrow> string list \<Rightarrow> string \<Rightarrow> errno + filesystem" where
  "do_unlink fs p final =
     (if final = [] \<or> final = ''.'' \<or> final = ''..'' then Inl EISDIR
      else (case lookup p (tree fs) of
              Inl e \<Rightarrow> Inl e
            | Inr (Dir _) \<Rightarrow> Inl EISDIR
            | Inr (File _) \<Rightarrow> Inr (fs\<lparr>tree := remove_node p (tree fs)\<rparr>)))"

definition do_rmdir :: "filesystem \<Rightarrow> string list \<Rightarrow> string \<Rightarrow> errno + filesystem" where
  "do_rmdir fs p final =
     (if final = [] then Inl EBUSY
      else if final = ''.'' then Inl EINVAL
      else if final = ''..'' then Inl ENOTEMPTY
      else (case lookup p (tree fs) of
              Inl e \<Rightarrow> Inl e
            | Inr (File _) \<Rightarrow> Inl ENOTDIR
            | Inr (Dir es) \<Rightarrow>
                if es \<noteq> [] then Inl ENOTEMPTY
                else Inr (fs\<lparr>tree := remove_node p (tree fs)\<rparr>)))"

text \<open>
  \<open>os.Remove\<close> tries \<open>unlink\<close> and then \<open>rmdir\<close>; when both fail it reports the error of
  \<open>rmdir\<close>, unless that says the name is no directory.
\<close>

definition os_Remove :: "filesystem \<Rightarrow> string \<Rightarrow> error + filesystem" where
  "os_Remove fs name =
     (case resolve fs name of
        Inl e \<Rightarrow> Inl (PathError ''remove'' name e)
      | Inr p \<Rightarrow>
          (case do_unlink fs p (final_elem name) of
             Inr fs' \<Rightarrow> Inr fs'
           | Inl e \<Rightarrow>
               (case do_rmdir fs p (final_elem name) of
                  Inr fs' \<Rightarrow> Inr fs'
                | Inl e1 \<Rightarrow> Inl (PathError ''remove'' name (if e1 \<noteq> ENOTDIR then e1 else e)))))"

text \<open>
  Go's \<open>splitPath\<close>: the directory and the base name of a path. All but one leading
  slash and the trailing slashes are dropped; the base starts after the last slash that
  stands before the last byte. Without such a slash the directory is the dot.
\<close>

fun lead_slashes :: "string \<Rightarrow> string" where
  "lead_slashes (a # b # cs) =
     (if a = CHR ''/'' \<and> b = CHR ''/'' then lead_slashes (b # cs) else a # b # cs)"
| "lead_slashes cs = cs"

definition trail_slashes :: "string \<Rightarrow> string" where
  "trail_slashes path =
     (case path of [] \<Rightarrow> [] | c # cs \<Rightarrow> c # rev (dropWhile (\<lambda>x. x = CHR ''/'') (rev cs)))"

definition splitPath :: "string \<Rightarrow> string \<times> string" where
  "splitPath path0 =
     (let path = trail_slashes (lead_slashes path0);
          front = rev (dropWhile (\<lambda>x. x \<noteq> CHR ''/'') (rev (butlast path)))
      in if front = [] then (''.'', path)
         else (if length front = 1 then front else butlast front, drop (length front) path))"

text \<open>
  \<open>os.Open\<close> of the parent directory gives a descriptor, which is the resolved path: later
  calls through the descriptor do not depend on the working directory. \<open>at_path\<close> is the
  path that a name stands for in a call relative to a descriptor.
\<close>

definition os_Open :: "filesystem \<Rightarrow> string \<Rightarrow> error + string list" where
  "os_Open fs name =
     (case resolve fs name of
        Inl e \<Rightarrow> Inl (PathError ''open'' name e)
      | Inr p \<Rightarrow>
          (case lookup p (tree fs) of
             Inl e \<Rightarrow> Inl (PathError ''open'' name e)
           | Inr _ \<Rightarrow> Inr p))"

definition at_path :: "string list \<Rightarrow> string \<Rightarrow> string list" where
  "at_path parent base = canon True ((if is_rooted base then [] else parent) @ elements base)"

text \<open>
  Go's \<open>removeAllFrom\<close>: \<open>unlinkat\<close> of the base name; when that finds a directory, the
  directory's entries are removed, each by \<open>removeAllFrom\<close> again, and then the directory
  by \<open>unlinkat\<close> with \<open>AT_REMOVEDIR\<close>. The entries of a directory have ordinary names and
  nothing here is protected, so removing them cannot fail: it leaves the directory empty,
  which is \<open>empty_dir\<close>.
\<close>

definition empty_dir :: "string list \<Rightarrow> node \<Rightarrow> node" where
  "empty_dir p t =
     (if p = [] then Dir []
      else (case put_node p (Dir []) t of Inl _ \<Rightarrow> t | Inr t' \<Rightarrow> t'))"

definition removeAllFrom :: "filesystem \<Rightarrow> string list \<Rightarrow> string \<Rightarrow> error option \<times> filesystem" where
  "removeAllFrom fs parent base =
     (let p = at_path parent base in
      case do_unlink fs p (final_elem base) of
        Inr fs' \<Rightarrow> (None, fs')
      | Inl e \<Rightarrow>
          if e = ENOENT then (None, fs)
          else if e \<noteq> EISDIR then (Some (PathError ''unlinkat'' base e), fs)
          else
            (case lookup p (tree fs) of
               Inl e1 \<Rightarrow>
                 if e1 = ENOENT then (None, fs) else (Some (PathError ''fstatat'' base e1), fs)
             | Inr (File _) \<Rightarrow> (Some (PathError ''unlinkat'' base e), fs)
             | Inr (Dir _) \<Rightarrow>
                 (let fs1 = fs\<lparr>tree := empty_dir p (tree fs)\<rparr> in
                  case do_rmdir fs1 p (final_elem base) of
                    Inr fs2 \<Rightarrow> (None, fs2)
                  | Inl e2 \<Rightarrow>
                      if e2 = ENOENT then (None, fs1)
                      else (Some (PathError ''unlinkat'' base e2), fs1))))"

text \<open>
  \<open>os.RemoveAll\<close>: nothing to do for the empty name; a name that ends in a dot is
  refused; done when \<open>os.Remove\<close> succeeds or finds nothing. Otherwise the parent
  directory is opened and the base name removed from it with all it holds; an error of that
  gets the parent's name in front of its path.
\<close>

definition endsWithDot :: "string \<Rightarrow> bool" where
  "endsWithDot name =
     (name = ''.'' \<or>
      (2 \<le> length name \<and> last name = CHR ''.'' \<and> last (butlast name) = CHR ''/''))"

definition os_RemoveAll :: "filesystem \<Rightarrow> string \<Rightarrow> error option \<times> filesystem" where
  "os_RemoveAll fs path =
     (if path = [] then (None, fs)
      else if endsWithDot path then (Some (PathError ''RemoveAll'' path EINVAL), fs)
      else
        (case os_Remove fs path of
           Inr fs' \<Rightarrow> (None, fs')
         | Inl err \<Rightarrow>
             if IsNotExist err then (None, fs)
             else
               (case splitPath path of
                  (parentDir, base) \<Rightarrow>
                    (case os_Open fs parentDir of
                       Inl e \<Rightarrow> if IsNotExist e then (None, fs) else (Some e, fs)
                     | Inr parent \<Rightarrow>
                         (case removeAllFrom fs parent base of
                            (Some (PathError opn p e), fs') \<Rightarrow>
                              (Some (PathError opn (parentDir @ ''/'' @ p) e), fs')
                          | r \<Rightarrow> r)))))"

section \<open>The driver\<close>

text \<open>
  A \<open>sync.Mutex\<close> is a value: the registry \<open>map[string]sync.Mutex\<close> holds mutex
  values, and \<open>getOrCreateMutex\<close> returns one by value. \<open>Lock\<close> on a locked mutex
  never returns, which is the result \<open>None\<close>. Of the driver's fields the registry and
  the directory are kept; its own mutex, under which \<open>getOrCreateMutex\<close> runs, and its
  logger are left out.
\<close>

datatype Mutex = Unlocked | Locked

definition Lock :: "Mutex \<Rightarrow> Mutex option" where
  "Lock m = (case m of Unlocked \<Rightarrow> Some Locked | Locked \<Rightarrow> None)"

definition Unlock :: "Mutex \<Rightarrow> Mutex" where
  "Unlock m = Unlocked"

record Driver =
  mutexes :: "string \<rightharpoonup> Mutex"
  dir :: string

definition getOrCreateMutex :: "Driver \<Rightarrow> string \<Rightarrow> Mutex \<times> Driver" where
  "getOrCreateMutex d collection =
     (case mutexes d collection of
        Some m \<Rightarrow> (m, d)
      | None \<Rightarrow> (Unlocked, d\<lparr>mutexes := (mutexes d)(collection \<mapsto> Unlocked)\<rparr>))"

text \<open>
  The guard of \<open>New\<close> on the cleaned path. In Go source the drive root is written
  \<open>"C:\\\\"\<close>, which is the three bytes of \<open>C:\<close> and one backslash.
\<close>

definition unsafe_root :: "string \<Rightarrow> bool" where
  "unsafe_root d =
     (d = ''/'' \<or> d = ''C:'' @ [CHR 0x5C] \<or> d = ''~'' \<or>
      (HasPrefix d ''/home/'' \<and> Count d (CHR ''/'') \<le> 2))"

text \<open>
  \<open>New\<close> returns the driver (\<open>None\<close> for Go's nil pointer) and the error. The options
  carry the logger only, which is left out.
\<close>

definition New :: "string \<Rightarrow> filesystem \<Rightarrow> Driver option \<times> error option \<times> filesystem" where
  "New dir0 fs =
     (let d = Clean dir0 in
      if unsafe_root d
      then (None, Some (Errorf ''Missing or unsafe filepath - no place to create db!''), fs)
      else
        (let driver = \<lparr>mutexes = Map.empty, dir = d\<rparr> in
         case os_Stat fs d of
           Inr _ \<Rightarrow> (Some driver, None, fs)
         | Inl _ \<Rightarrow>
             (case os_MkdirAll fs d of
                Inl e \<Rightarrow> (Some driver, Some e, fs)
              | Inr fs' \<Rightarrow> (Some driver, None, fs'))))"

text \<open>
  \<open>Write\<close>, with the JSON encoder as a parameter. The result is \<open>None\<close> when the
  call never returns; otherwise it holds the error, the driver, and the file system after
  each call that changes it, in order.
\<close>

definition Write_steps ::
  "('v \<Rightarrow> error + string) \<Rightarrow> Driver \<Rightarrow> string \<Rightarrow> string \<Rightarrow> 'v \<Rightarrow> filesystem \<Rightarrow>
   (error option \<times> Driver \<times> filesystem list) option" where
  "Write_steps marshal d collection resource v fs =
     (if collection = []
      then Some (Some (Errorf ''Missing collection - no place to save record!''), d, [])
      else if resource = []
      then Some (Some (Errorf ''Missing resource - unable to save record - no name!''), d, [])
      else
        (case getOrCreateMutex d collection of
           (mutex, d1) \<Rightarrow>
             (case Lock mutex of
                None \<Rightarrow> None
              | Some _ \<Rightarrow>
                  (let dirp = Join [dir d1, collection];
                       fnlPath = Join [dirp, resource];
                       tmpPath = fnlPath @ ''.tmp''
                   in case os_MkdirAll fs dirp of
                        Inl e \<Rightarrow> Some (Some e, d1, [])
                      | Inr fs1 \<Rightarrow>
                          (case marshal v of
                             Inl e \<Rightarrow> Some (Some e, d1, [fs1])
                           | Inr b \<Rightarrow>
                               (case ioutil_WriteFile fs1 tmpPath b of
                                  (Some e, fss) \<Rightarrow> Some (Some e, d1, fs1 # fss)
                                | (None, fss) \<Rightarrow>
                                    (case os_Rename (last (fs1 # fss)) tmpPath fnlPath of
                                       Inl e \<Rightarrow> Some (Some e, d1, fs1 # fss)
                                     | Inr fs4 \<Rightarrow> Some (None, d1, fs1 # fss @ [fs4]))))))))"

definition Write ::
  "('v \<Rightarrow> error + string) \<Rightarrow> Driver \<Rightarrow> string \<Rightarrow> string \<Rightarrow> 'v \<Rightarrow> filesystem \<Rightarrow>
   (error option \<times> Driver \<times> filesystem) option" where
  "Write marshal d collection resource v fs =
     map_option (\<lambda>(e, d', fss). (e, d', last (fs # fss)))
       (Write_steps marshal d collection resource v fs)"

text \<open>\<open>Read\<close>, with the JSON decoder as a parameter; the value read is the result.\<close>

definition Read ::
  "(string \<Rightarrow> error + 'v) \<Rightarrow> Driver \<Rightarrow> string \<Rightarrow> string \<Rightarrow> filesystem \<Rightarrow>
   (error + 'v) \<times> filesystem" where
  "Read unmarshal d collection resource fs =
     (if collection = []
      then (Inl (Errorf ''Missing collection - no place to read record!''), fs)
      else if resource = []
      then (Inl (Errorf ''Missing resource - unable to read record - no name!''), fs)
      else
        (let record = Join [dir d, collection, resource] in
         case os_Stat fs record of
           Inl e \<Rightarrow> (Inl e, fs)
         | Inr _ \<Rightarrow>
             (case ioutil_ReadFile fs record of
                Inl e \<Rightarrow> (Inl e, fs)
              | Inr b \<Rightarrow> (unmarshal b, fs))))"

text \<open>The loop of \<open>ReadAll\<close> over the directory's entries.\<close>

fun read_files :: "filesystem \<Rightarrow> string \<Rightarrow> string list \<Rightarrow> string list \<Rightarrow> error + string list" where
  "read_files fs dirp [] records = Inr records"
| "read_files fs dirp (f # files) records =
     (case ioutil_ReadFile fs (Join [dirp, f]) of
        Inl e \<Rightarrow> Inl e
      | Inr b \<Rightarrow> read_files fs dirp files (records @ [b]))"

definition ReadAll ::
  "Driver \<Rightarrow> string \<Rightarrow> filesystem \<Rightarrow> (error + string list) \<times> filesystem" where
  "ReadAll d collection fs =
     (if collection = []
      then (Inl (Errorf ''Missing collection - unable to read location!''), fs)
      else
        (let dirp = Join [dir d, collection] in
         case os_Stat fs dirp of
           Inl e \<Rightarrow>
             (Inl (Errorf (''Directory '' @ [CHR 0x27] @ dirp @ [CHR 0x27] @
                            '' does not exist - '' @ Error e @ ''!'')), fs)
         | Inr _ \<Rightarrow>
             (let files = (case ioutil_ReadDir fs dirp of Inl _ \<Rightarrow> [] | Inr ns \<Rightarrow> ns)
              in (read_files fs dirp files [], fs))))"

text \<open>
  \<open>Delete\<close>. Every node of this file system is a directory or a regular file, so the
  switch's second case always applies to a node that \<open>stat\<close> found.
\<close>

definition Delete ::
  "Driver \<Rightarrow> string \<Rightarrow> string \<Rightarrow> filesystem \<Rightarrow> (error option \<times> Driver \<times> filesystem) option" where
  "Delete d collection0 resource0 fs =
     (let resource = Clean resource0;
          collection = Clean collection0
      in if collection = [] \<or> collection = ''/'' \<or> collection = ''.''
         then Some (Some (Errorf ''Missing collection - no place to delete record!''), d, fs)
         else
           (let path = Join [collection, resource] in
            case getOrCreateMutex d path of
              (mutex, d1) \<Rightarrow>
                (case Lock mutex of
                   None \<Rightarrow> None
                 | Some _ \<Rightarrow>
                     (let dirp = Join [dir d1, path] in
                      case os_Stat fs dirp of
                        Inl err \<Rightarrow>
                          if Contains (Error err) ''no such file'' then Some (None, d1, fs)
                          else Some (Some (Errorf (''Unable to stat '' @ dirp @ '' - '' @
                                                    Error err @ ''!'')), d1, fs)
                      | Inr fi \<Rightarrow>
                          if IsDir fi \<or> IsRegular fi
                          then (case os_RemoveAll fs dirp of (e, fs') \<Rightarrow> Some (e, d1, fs'))
                          else Some (None, d1, fs)))))"

section \<open>Concurrent writers\<close>

text \<open>
  Calls of \<open>Write\<close> that run at once on one driver. Each call is a writer with its own
  local variables, among them the mutex that \<open>getOrCreateMutex\<close> returned to it by value.
  A step of the system is one action of one writer: the checks of the arguments together
  with \<open>getOrCreateMutex\<close> (which runs under the driver's own mutex), \<open>Lock\<close>, the
  encoding, or one call on the file system. \<open>ioutil.WriteFile\<close> is two calls, as above:
  opening the file, and writing through the descriptor it got. A descriptor names its file
  by the file's path; when a rename moves the file, the descriptors open on it follow, and
  those open on a file the rename replaces are left on a file without a name.
\<close>

text \<open>
  Where a writer stands: before the statement named, or returned with its error.
\<close>

datatype stage = Entry | Locking | Mkdir | Marshal | Open | WriteData | Rename | Returned "error option"

record 'v writer =
  w_collection :: string
  w_resource :: string
  w_value :: 'v
  w_stage :: stage
  w_mutex :: Mutex
  w_bytes :: string
  w_fd :: "string list option"

definition new_writer :: "string \<Rightarrow> string \<Rightarrow> 'v \<Rightarrow> 'v writer" where
  "new_writer c r v =
     \<lparr>w_collection = c, w_resource = r, w_value = v, w_stage = Entry, w_mutex = Unlocked,
      w_bytes = [], w_fd = None\<rparr>"

text \<open>
  Returning after the \<open>defer mutex.Unlock()\<close>: the writer's own mutex is unlocked.
\<close>

definition returns :: "'v writer \<Rightarrow> error option \<Rightarrow> 'v writer" where
  "returns w e = w\<lparr>w_stage := Returned e, w_mutex := Unlock (w_mutex w), w_fd := None\<rparr>"

definition writer_step ::
  "('v \<Rightarrow> error + string) \<Rightarrow> 'v writer \<Rightarrow> Driver \<Rightarrow> filesystem \<Rightarrow>
   'v writer \<times> Driver \<times> filesystem \<times> (string list \<times> string list) option" where
  "writer_step marshal w d fs =
     (let dirp = Join [dir d, w_collection w];
          fnlPath = Join [dirp, w_resource w];
          tmpPath = fnlPath @ ''.tmp''
      in case w_stage w of
        Entry \<Rightarrow>
          if w_collection w = []
          then (w\<lparr>w_stage := Returned (Some (Errorf ''Missing collection - no place to save record!''))\<rparr>,
                d, fs, None)
          else if w_resource w = []
          then (w\<lparr>w_stage := Returned (Some (Errorf ''Missing resource - unable to save record - no name!''))\<rparr>,
                d, fs, None)
          else (case getOrCreateMutex d (w_collection w) of
                  (m, d1) \<Rightarrow> (w\<lparr>w_mutex := m, w_stage := Locking\<rparr>, d1, fs, None))
      | Locking \<Rightarrow>
          (case Lock (w_mutex w) of
             None \<Rightarrow> (w, d, fs, None)
           | Some m \<Rightarrow> (w\<lparr>w_mutex := m, w_stage := Mkdir\<rparr>, d, fs, None))
      | Mkdir \<Rightarrow>
          (case os_MkdirAll fs dirp of
             Inl e \<Rightarrow> (returns w (Some e), d, fs, None)
           | Inr fs1 \<Rightarrow> (w\<lparr>w_stage := Marshal\<rparr>, d, fs1, None))
      | Marshal \<Rightarrow>
          (case marshal (w_value w) of
             Inl e \<Rightarrow> (returns w (Some e), d, fs, None)
           | Inr b \<Rightarrow> (w\<lparr>w_bytes := b, w_stage := Open\<rparr>, d, fs, None))
      | Open \<Rightarrow>
          (case open_trunc fs tmpPath of
             Inl e \<Rightarrow> (returns w (Some e), d, fs, None)
           | Inr fs1 \<Rightarrow>
               (w\<lparr>w_fd := (case resolve fs tmpPath of Inl _ \<Rightarrow> None | Inr p \<Rightarrow> Some p),
                  w_stage := WriteData\<rparr>, d, fs1, None))
      | WriteData \<Rightarrow>
          (w\<lparr>w_fd := None, w_stage := Rename\<rparr>, d,
           (case w_fd w of
              None \<Rightarrow> fs
            | Some p \<Rightarrow>
                (case lookup p (tree fs) of
                   Inr (File old) \<Rightarrow>
                     (case put_node p (File (overwrite (w_bytes w) old)) (tree fs) of
                        Inl _ \<Rightarrow> fs
                      | Inr t \<Rightarrow> fs\<lparr>tree := t\<rparr>)
                 | _ \<Rightarrow> fs)),
           None)
      | Rename \<Rightarrow>
          (case os_Rename fs tmpPath fnlPath of
             Inl e \<Rightarrow> (returns w (Some e), d, fs, None)
           | Inr fs1 \<Rightarrow>
               (returns w None, d, fs1,
                (case (resolve fs tmpPath, resolve fs fnlPath) of
                   (Inr po, Inr pn) \<Rightarrow> Some (po, pn)
                 | _ \<Rightarrow> None)))
      | Returned e \<Rightarrow> (w, d, fs, None))"

text \<open>
  The effect of a rename from \<open>po\<close> to \<open>pn\<close> on another writer's descriptor.
\<close>

definition retarget :: "string list \<Rightarrow> string list \<Rightarrow> 'v writer \<Rightarrow> 'v writer" where
  "retarget po pn w =
     (case w_fd w of
        None \<Rightarrow> w
      | Some p \<Rightarrow>
          if po = pn then w
          else if p = po then w\<lparr>w_fd := Some pn\<rparr>
          else if p = pn then w\<lparr>w_fd := None\<rparr>
          else w)"

record 'v system =
  drv :: Driver
  fsys :: filesystem
  writers :: "'v writer list"

text \<open>
  One step of writer \<open>i\<close>; \<open>Lock\<close> on a locked mutex leaves the writer where it is.
\<close>

definition step :: "('v \<Rightarrow> error + string) \<Rightarrow> 'v system \<Rightarrow> nat \<Rightarrow> 'v system" where
  "step marshal s i =
     (if i < length (writers s) then
        (case writer_step marshal (writers s ! i) (drv s) (fsys s) of
           (w', d', fs', moved) \<Rightarrow>
             \<lparr>drv = d', fsys = fs',
              writers = (case moved of
                           None \<Rightarrow> writers s
                         | Some (po, pn) \<Rightarrow> map (retarget po pn) (writers s))[i := w']\<rparr>)
      else s)"

definition run :: "('v \<Rightarrow> error + string) \<Rightarrow> nat list \<Rightarrow> 'v system \<Rightarrow> 'v system" where
  "run marshal schedule s = foldl (step marshal) s schedule"

section \<open>Example states\<close>

text \<open>
  Concrete states for the closed theorems below: a store at \<open>/tmp/db\<close> with the
  collections \<open>fish\<close> (one record) and \<open>other\<close> (empty), and a file system where a
  regular file stands in the way of a new store.
\<close>

definition d_store :: Driver where
  "d_store = \<lparr>mutexes = Map.empty, dir = ''/tmp/db''\<rparr>"

definition fs_store :: filesystem where
  "fs_store = \<lparr>cwd = [], tree = Dir [(''tmp'', Dir [(''db'',
      Dir [(''fish'', Dir [(''redfish'', File ''{}'')]), (''other'', Dir [])])])]\<rparr>"

definition fs_blocked :: filesystem where
  "fs_blocked = \<lparr>cwd = [], tree = Dir [(''tmp'', Dir [(''file'', File [])])]\<rparr>"

text \<open>
  The record of the repository's tests, \<open>type Fish struct { Type string `json:"type"` }\<close>,
  with an example encoder and decoder: the bytes \<open>json.MarshalIndent(v, "", "\\t")\<close>
  makes of a fish whose type is a word of lower-case letters. Other types need JSON escapes,
  which this example leaves out: it refuses them.
\<close>

datatype Fish = Fish string

definition json_open :: string where
  "json_open = ''{'' @ [CHR 0x0A, CHR 0x09, CHR 0x22] @ ''type'' @ [CHR 0x22] @ '': '' @ [CHR 0x22]"

definition json_close :: string where
  "json_close = [CHR 0x22, CHR 0x0A] @ ''}''"

definition plain :: "string \<Rightarrow> bool" where
  "plain t = list_all (\<lambda>c. CHR ''a'' \<le> c \<and> c \<le> CHR ''z'') t"

definition marshal_Fish :: "Fish \<Rightarrow> error + string" where
  "marshal_Fish f =
     (case f of Fish t \<Rightarrow>
        if plain t then Inr (json_open @ t @ json_close)
        else Inl (JSONError ''json: unsupported value''))"

definition unmarshal_Fish :: "string \<Rightarrow> error + Fish" where
  "unmarshal_Fish b =
     (let n = length b - length json_open - length json_close;
          t = take n (drop (length json_open) b)
      in if b = json_open @ t @ json_close \<and> plain t then Inr (Fish t)
         else Inl (JSONError ''invalid character''))"

definition red_bytes :: string where
  "red_bytes = ''{'' @ [CHR 0x0A, CHR 0x09, CHR 0x22] @ ''type'' @ [CHR 0x22] @ '': '' @
               [CHR 0x22] @ ''red'' @ [CHR 0x22, CHR 0x0A] @ ''}''"

definition blue_bytes :: string where
  "blue_bytes = ''{'' @ [CHR 0x0A, CHR 0x09, CHR 0x22] @ ''type'' @ [CHR 0x22] @ '': '' @
               [CHR 0x22] @ ''blue'' @ [CHR 0x22, CHR 0x0A] @ ''}''"

text \<open>
  An empty store, and the same store after the red fish was written to the collection
  \<open>.\<close> under the name \<open>fish\<close>: the record is a regular file in the root itself.
\<close>

definition fs_root :: filesystem where
  "fs_root = \<lparr>cwd = [], tree = Dir [(''tmp'', Dir [(''db'', Dir [])])]\<rparr>"

definition fs_flat :: filesystem where
  "fs_flat = \<lparr>cwd = [], tree = Dir [(''tmp'', Dir [(''db'', Dir [(''fish'', File red_bytes)])])]\<rparr>"

text \<open>
  The example store while the red fish is written: after the temporary file is opened, after
  it is written, and after it is renamed.
\<close>

definition fs_opened :: filesystem where
  "fs_opened = \<lparr>cwd = [], tree = Dir [(''tmp'', Dir [(''db'',
      Dir [(''fish'', Dir [(''redfish'', File ''{}''), (''redfish.tmp'', File [])]),
           (''other'', Dir [])])])]\<rparr>"

definition fs_written :: filesystem where
  "fs_written = \<lparr>cwd = [], tree = Dir [(''tmp'', Dir [(''db'',
      Dir [(''fish'', Dir [(''redfish'', File ''{}''), (''redfish.tmp'', File red_bytes)]),
           (''other'', Dir [])])])]\<rparr>"

definition fs_renamed :: filesystem where
  "fs_renamed = \<lparr>cwd = [], tree = Dir [(''tmp'', Dir [(''db'',
      Dir [(''fish'', Dir [(''redfish'', File red_bytes)]), (''other'', Dir [])])])]\<rparr>"

text \<open>
  Two writers of the same record with different payloads.
\<close>

definition two_writers :: "Fish system" where
  "two_writers =
     \<lparr>drv = d_store, fsys = fs_store,
      writers = [new_writer ''fish'' ''redfish'' (Fish ''blue''),
                 new_writer ''fish'' ''redfish'' (Fish ''red'')]\<rparr>"

text \<open>
  Stores with a relative root, used from the working directory \<open>/work/sub\<close>: the store
  \<open>db\<close>, the store \<open>.\<close> and the store \<open>..\<close>, as \<open>New\<close> makes them.
\<close>

definition fs_work :: filesystem where
  "fs_work = \<lparr>cwd = [''work'', ''sub''], tree = Dir [(''work'', Dir [(''sub'', Dir [(''db'',
      Dir [(''fish'', Dir [(''redfish'', File ''{}'')])])])])]\<rparr>"

definition d_rel :: Driver where
  "d_rel = \<lparr>mutexes = Map.empty, dir = ''db''\<rparr>"

definition d_dot :: Driver where
  "d_dot = \<lparr>mutexes = Map.empty, dir = ''.''\<rparr>"

definition d_up :: Driver where
  "d_up = \<lparr>mutexes = Map.empty, dir = ''..''\<rparr>"

text \<open>
  The error and the file system of a result, without the driver.
\<close>

definition outcome ::
  "(error option \<times> Driver \<times> filesystem) option \<Rightarrow> (error option \<times> filesystem) option" where
  "outcome = map_option (\<lambda>(e, d, fs). (e, fs))"

definition steps_outcome ::
  "(error option \<times> Driver \<times> filesystem list) option \<Rightarrow> (error option \<times> filesystem list) option" where
  "steps_outcome = map_option (\<lambda>(e, d, fss). (e, fss))"

section \<open>Predicates used in the proofs\<close>

text \<open>Path elements as \<open>Clean\<close> keeps them: not empty, not a dot, without a slash.\<close>

definition names_ok :: "string list \<Rightarrow> bool" where
  "names_ok es = (\<forall>e \<in> set es. e \<noteq> [] \<and> e \<noteq> ''.'' \<and> CHR ''/'' \<notin> set e)"

text \<open>
  The shape of \<open>Clean\<close>'s stack, last element first: real names on top of the leading
  \<open>..\<close> elements, which a rooted path never has.
\<close>

fun nf :: "bool \<Rightarrow> string list \<Rightarrow> bool" where
  "nf r [] = True"
| "nf r (t # ts) = (if t = ''..'' then \<not> r \<and> (\<forall>x \<in> set ts. x = ''..'') else nf r ts)"

text \<open>A name of one path segment: not empty, not a dot or two, without a slash.\<close>

definition segment :: "string \<Rightarrow> bool" where
  "segment s = (s \<noteq> [] \<and> s \<noteq> ''.'' \<and> s \<noteq> ''..'' \<and> CHR ''/'' \<notin> set s)"

text \<open>
  A name whose final element is an ordinary one: not the root, not a dot, not two dots.
\<close>

definition ordinary :: "string \<Rightarrow> bool" where
  "ordinary name = (final_elem name \<noteq> [] \<and> final_elem name \<noteq> ''.'' \<and> final_elem name \<noteq> ''..'')"

text \<open>
  No mutex of the registry is locked. \<open>New\<close> makes such a driver and every method
  keeps it so, since \<open>Lock\<close> is only ever called on a copy.
\<close>

definition registry_free :: "Driver \<Rightarrow> bool" where
  "registry_free d = (\<forall>k. mutexes d k \<noteq> Some Locked)"

text \<open>
  A system of one writer.
\<close>

definition alone :: "Driver \<Rightarrow> filesystem \<Rightarrow> 'v writer \<Rightarrow> 'v system" where
  "alone d fs w = \<lparr>drv = d, fsys = fs, writers = [w]\<rparr>"

section \<open>Strings and paths: lemmas\<close>

lemma HasPrefix_append: "HasPrefix (pre @ s) pre"
  by (simp add: HasPrefix_def)

lemma Count_append: "Count (a @ b) c = Count a c + Count b c"
  by (simp add: Count_def)

lemma HasPrefix_iff: "HasPrefix s pre \<longleftrightarrow> (\<exists>t. s = pre @ t)"
  unfolding HasPrefix_def
  by (metis append_eq_conv_conj append_take_drop_id)

lemma Count_zero_iff: "Count s c = 0 \<longleftrightarrow> c \<notin> set s"
  by (induction s) (auto simp: Count_def)

lemma home_guard_iff:
  "HasPrefix d ''/home/'' \<and> Count d (CHR ''/'') \<le> 2 \<longleftrightarrow>
   (\<exists>seg. d = ''/home/'' @ seg \<and> CHR ''/'' \<notin> set seg)"
proof
  assume h: "HasPrefix d ''/home/'' \<and> Count d (CHR ''/'') \<le> 2"
  then obtain seg where d: "d = ''/home/'' @ seg" by (auto simp: HasPrefix_iff)
  have "Count d (CHR ''/'') = 2 + Count seg (CHR ''/'')"
    unfolding d Count_append by (simp add: Count_def)
  with h have "Count seg (CHR ''/'') = 0" by simp
  then show "\<exists>seg. d = ''/home/'' @ seg \<and> CHR ''/'' \<notin> set seg"
    using d Count_zero_iff by blast
next
  assume "\<exists>seg. d = ''/home/'' @ seg \<and> CHR ''/'' \<notin> set seg"
  then obtain seg where d: "d = ''/home/'' @ seg" and n: "CHR ''/'' \<notin> set seg" by blast
  have c: "Count d (CHR ''/'') = 2 + Count seg (CHR ''/'')"
    unfolding d Count_append by (simp add: Count_def)
  have "HasPrefix d ''/home/''" unfolding d by (rule HasPrefix_append)
  moreover have "Count d (CHR ''/'') \<le> 2" using c n Count_zero_iff[of seg] by simp
  ultimately show "HasPrefix d ''/home/'' \<and> Count d (CHR ''/'') \<le> 2" by simp
qed

lemma split_path_nonempty: "split_path s \<noteq> []"
  by (induction s) (auto split: list.splits)

lemma split_path_append: "split_path (a @ CHR ''/'' # b) = split_path a @ split_path b"
proof (induction a)
  case Nil
  show ?case by simp
next
  case (Cons c a)
  obtain w ws where w: "split_path a = w # ws"
    using split_path_nonempty[of a] by (cases "split_path a") auto
  show ?case using Cons w by simp
qed

lemma split_path_no_slash: "CHR ''/'' \<notin> set s \<Longrightarrow> split_path s = [s]"
  by (induction s) auto

lemma split_path_pieces: "w \<in> set (split_path s) \<Longrightarrow> CHR ''/'' \<notin> set w"
proof (induction s arbitrary: w)
  case Nil
  then show ?case by simp
next
  case (Cons c s)
  obtain v vs where v: "split_path s = v # vs"
    using split_path_nonempty[of s] by (cases "split_path s") auto
  show ?case
  proof (cases "c = CHR ''/''")
    case True
    with Cons show ?thesis by auto
  next
    case False
    with Cons.prems v have "w = c # v \<or> w \<in> set vs" by simp
    then show ?thesis
    proof
      assume "w = c # v"
      moreover have "CHR ''/'' \<notin> set v" using Cons.IH[of v] v by simp
      ultimately show ?thesis using False by simp
    next
      assume "w \<in> set vs"
      then show ?thesis using Cons.IH[of w] v by simp
    qed
  qed
qed

lemma names_ok_simps [simp]:
  "names_ok []"
  "names_ok (e # es) = ((e \<noteq> [] \<and> e \<noteq> ''.'' \<and> CHR ''/'' \<notin> set e) \<and> names_ok es)"
  "names_ok (es @ fs) = (names_ok es \<and> names_ok fs)"
  "names_ok (rev es) = names_ok es"
  by (auto simp: names_ok_def)

lemma split_path_join:
  "es \<noteq> [] \<Longrightarrow> \<forall>e \<in> set es. CHR ''/'' \<notin> set e \<Longrightarrow> split_path (join_path es) = es"
proof (induction es rule: join_path.induct)
  case 1
  then show ?case by simp
next
  case (2 w)
  then show ?case by (simp add: split_path_no_slash)
next
  case (3 w v ws)
  then show ?case by (simp add: split_path_append split_path_no_slash)
qed

lemma names_ok_elements: "names_ok (elements s)"
  by (auto simp: names_ok_def elements_def dest: split_path_pieces)

lemma elements_append: "elements (a @ CHR ''/'' # b) = elements a @ elements b"
  by (simp add: elements_def split_path_append)

lemma elements_join: "names_ok es \<Longrightarrow> elements (join_path es) = es"
proof (cases "es = []")
  case True
  then show ?thesis by (simp add: elements_def)
next
  case False
  assume ok: "names_ok es"
  then have "split_path (join_path es) = es"
    using False by (intro split_path_join) (auto simp: names_ok_def)
  then show ?thesis using ok by (auto simp: elements_def names_ok_def filter_id_conv)
qed

lemma elements_render: "names_ok es \<Longrightarrow> elements (render r es) = es"
proof -
  assume ok: "names_ok es"
  have a: "elements (CHR ''/'' # join_path es) = es"
    using elements_append[of "[]" "join_path es"] elements_join[OF ok] by (simp add: elements_def)
  have b: "elements ''.'' = []" by (simp add: elements_def)
  show ?thesis using a b elements_join[OF ok] by (simp add: render_def)
qed

lemma join_path_Cons_nonempty: "e \<noteq> [] \<Longrightarrow> join_path (e # es) \<noteq> [] \<and> hd (join_path (e # es)) = hd e"
  by (cases es) auto

lemma render_nonempty: "names_ok es \<Longrightarrow> render r es \<noteq> []"
  by (cases es) (auto simp: render_def dest: join_path_Cons_nonempty)

lemma is_rooted_render: "names_ok es \<Longrightarrow> is_rooted (render r es) = r"
proof (cases es)
  case Nil
  then show ?thesis by (simp add: render_def is_rooted_def)
next
  case (Cons e es')
  assume "names_ok es"
  with Cons have e: "e \<noteq> []" "CHR ''/'' \<notin> set e" by auto
  then have "hd e \<noteq> CHR ''/''" by (cases e) auto
  with e Cons join_path_Cons_nonempty[of e es'] show ?thesis
    by (auto simp: render_def is_rooted_def)
qed

lemma nf_all_dotdot: "\<not> r \<Longrightarrow> \<forall>x \<in> set ts. x = ''..'' \<Longrightarrow> nf r ts"
  by (induction ts) auto

lemma nf_tl: "nf r (t # ts) \<Longrightarrow> nf r ts"
  by (auto simp: nf_all_dotdot split: if_splits)

lemma nf_clean_step: "nf r stk \<Longrightarrow> nf r (clean_step r stk e)"
  by (cases stk) (auto simp: clean_step_def nf_all_dotdot split: if_splits)

lemma nf_foldl: "nf r stk \<Longrightarrow> nf r (foldl (clean_step r) stk es)"
  by (induction es arbitrary: stk) (auto simp: nf_clean_step)

lemma nf_replay: "nf r stk \<Longrightarrow> foldl (clean_step r) [] (rev stk) = stk"
proof (induction stk)
  case Nil
  then show ?case by simp
next
  case (Cons t ts)
  then have "foldl (clean_step r) [] (rev ts) = ts" using nf_tl by blast
  then have "foldl (clean_step r) [] (rev (t # ts)) = clean_step r ts t" by simp
  also have "\<dots> = t # ts" using Cons.prems by (cases ts) (auto simp: clean_step_def)
  finally show ?case .
qed

lemma canon_append: "canon r (canon r xs @ ys) = canon r (xs @ ys)"
proof -
  have "nf r (foldl (clean_step r) [] xs)" by (rule nf_foldl) simp
  then show ?thesis by (simp add: canon_def nf_replay)
qed

lemma names_ok_clean_step: "names_ok stk \<Longrightarrow> names_ok [e] \<Longrightarrow> names_ok (clean_step r stk e)"
  by (cases stk) (auto simp: clean_step_def)

lemma names_ok_foldl: "names_ok stk \<Longrightarrow> names_ok es \<Longrightarrow> names_ok (foldl (clean_step r) stk es)"
  by (induction es arbitrary: stk) (auto simp: names_ok_clean_step)

lemma names_ok_canon: "names_ok es \<Longrightarrow> names_ok (canon r es)"
  by (simp add: canon_def names_ok_foldl)

lemma Clean_nonempty: "Clean s \<noteq> []"
  by (simp add: Clean_def render_nonempty names_ok_canon names_ok_elements)

lemma is_rooted_append: "a \<noteq> [] \<Longrightarrow> is_rooted (a @ b) = is_rooted a"
  by (cases a) (auto simp: is_rooted_def)

lemma Clean_Clean_append:
  assumes "x \<noteq> []"
  shows "Clean (Clean x @ CHR ''/'' # y) = Clean (x @ CHR ''/'' # y)"
proof -
  let ?r = "is_rooted x"
  let ?C = "canon ?r (elements x)"
  have ok: "names_ok ?C" by (simp add: names_ok_canon names_ok_elements)
  have cx: "Clean x = render ?r ?C" using assms by (simp add: Clean_def)
  have r1: "is_rooted (Clean x @ CHR ''/'' # y) = ?r"
    using is_rooted_append[OF Clean_nonempty, of x "CHR ''/'' # y"] is_rooted_render[OF ok, of ?r]
    unfolding cx by simp
  have r2: "is_rooted (x @ CHR ''/'' # y) = ?r" using assms by (simp add: is_rooted_append)
  have e1: "elements (Clean x @ CHR ''/'' # y) = ?C @ elements y"
    by (simp add: elements_append cx elements_render[OF ok])
  have "Clean (Clean x @ CHR ''/'' # y) = render ?r (canon ?r (?C @ elements y))"
    unfolding Clean_def[of "Clean x @ CHR ''/'' # y"] r1 e1 by simp
  moreover have "Clean (x @ CHR ''/'' # y) = render ?r (canon ?r (elements x @ elements y))"
    unfolding Clean_def[of "x @ CHR ''/'' # y"] r2 elements_append by simp
  ultimately show ?thesis by (simp add: canon_append)
qed

lemma Join2: "a \<noteq> [] \<Longrightarrow> Join [a, b] = Clean (a @ CHR ''/'' # b)"
  by (simp add: Join_def)

lemma Join3: "a \<noteq> [] \<Longrightarrow> Join [a, b, c] = Clean (a @ CHR ''/'' # b @ CHR ''/'' # c)"
  by (simp add: Join_def)

lemma Join_Join: "Join [Join [a, b], c] = Join [a, b, c]"
proof (cases "a = []")
  case False
  then show ?thesis
    using Clean_Clean_append[of "a @ CHR ''/'' # b" c]
    by (simp add: Join2 Join3 Clean_nonempty)
next
  case True
  show ?thesis
  proof (cases "b = []")
    case True
    with \<open>a = []\<close> show ?thesis by (simp add: Join_def)
  next
    case False
    with True show ?thesis
      using Clean_Clean_append[of b c] by (simp add: Join_def Clean_nonempty split: list.splits)
  qed
qed



lemma segment_no_root: "segment c \<Longrightarrow> \<not> is_rooted c"
  by (cases c) (auto simp: segment_def is_rooted_def)

lemma elements_segment: "segment c \<Longrightarrow> elements c = [c]"
  by (simp add: segment_def elements_def split_path_no_slash)

lemma names_ok_segment: "segment c \<Longrightarrow> names_ok [c]"
  by (simp add: segment_def)

lemma canon_snoc: "e \<noteq> ''..'' \<Longrightarrow> canon r (es @ [e]) = canon r es @ [e]"
  by (simp add: canon_def clean_step_def)

lemma Clean_Nil: "Clean [] = ''.''"
  by (simp add: Clean_def)

lemma Clean_segment: "segment c \<Longrightarrow> Clean c = c"
  using canon_snoc[of c False "[]"]
  by (auto simp: Clean_def segment_no_root elements_segment render_def canon_def segment_def)

lemma elements_dot: "elements ''.'' = []"
  by (simp add: elements_def)

lemma elements_dotdot: "elements ''..'' = [''..'']"
  by (simp add: elements_def)

lemma Clean_append_dot: "x \<noteq> [] \<Longrightarrow> Clean (x @ ''/.'') = Clean x"
  using elements_append[of x "''.''"] is_rooted_append[of x "''/.''"]
  by (simp add: Clean_def elements_dot)

lemma Join_segment_dotdot: "segment c \<Longrightarrow> Join [c, ''..''] = ''.''"
proof -
  assume s: "segment c"
  then have c: "c \<noteq> []" "c \<noteq> ''..''" by (auto simp: segment_def)
  have e: "elements (c @ ''/..'') = [c, ''..'']"
    using elements_append[of c "''..''"] s by (simp add: elements_segment elements_dotdot)
  have r: "\<not> is_rooted (c @ ''/..'')"
    using is_rooted_append[of c "''/..''"] c segment_no_root[OF s] by simp
  have "canon False [c, ''..''] = []" using c by (simp add: canon_def clean_step_def)
  then have "Clean (c @ ''/..'') = ''.''" using e r c by (simp add: Clean_def render_def)
  then show ?thesis using c by (simp add: Join_def)
qed

lemma Join_root_dot: "Clean x = x \<Longrightarrow> Join [x, ''.''] = x"
proof -
  assume c: "Clean x = x"
  then have "x \<noteq> []" using Clean_nonempty[of x] by auto
  then show ?thesis using Clean_append_dot[of x] c by (simp add: Join_def)
qed

lemma join_path_snoc: "es \<noteq> [] \<Longrightarrow> join_path (es @ [c]) = join_path es @ CHR ''/'' # c"
  by (induction es rule: join_path.induct) auto

lemma not_endsWithDot_snoc:
  assumes "segment c" and "pre = [] \<or> last pre = CHR ''/''"
  shows "\<not> endsWithDot (pre @ c)"
proof
  assume e: "endsWithDot (pre @ c)"
  from assms(1) have c: "c \<noteq> []" "c \<noteq> ''.''" "CHR ''/'' \<notin> set c" by (auto simp: segment_def)
  have np: "pre @ c \<noteq> ''.''"
  proof
    assume "pre @ c = ''.''"
    then have "pre = []" using c(1) by (cases pre) auto
    with \<open>pre @ c = ''.''\<close> c(2) show False by simp
  qed
  with e have l: "last (pre @ c) = CHR ''.''" and b: "last (butlast (pre @ c)) = CHR ''/''"
    by (auto simp: endsWithDot_def)
  have bl: "butlast (pre @ c) = pre @ butlast c" using c(1) by (simp add: butlast_append)
  show False
  proof (cases "butlast c = []")
    case True
    then have "c = [last c]" using c(1) by (metis append_butlast_last_id append_Nil)
    moreover have "last c = CHR ''.''" using l c(1) by simp
    ultimately show False using c(2) by simp
  next
    case False
    then have "last (pre @ butlast c) = last (butlast c)" by simp
    moreover have "last (butlast c) \<in> set c" using False by (meson in_set_butlastD last_in_set)
    ultimately show False using b bl c(3) by simp
  qed
qed

text \<open>The name of a collection directory \<open>Join [root, c]\<close> for a one-segment \<open>c\<close>.\<close>

lemma Join_segment_form:
  assumes "segment c"
  shows "\<exists>r es. names_ok es \<and> Join [a, c] = render r (es @ [c])"
proof (cases "a = []")
  case True
  have "Join [a, c] = c" using True assms by (simp add: Join_def Clean_segment segment_def)
  then have "Join [a, c] = render False ([] @ [c])" using assms by (simp add: render_def)
  then show ?thesis by (metis names_ok_simps(1))
next
  case False
  let ?r = "is_rooted (a @ CHR ''/'' # c)"
  have "elements (a @ CHR ''/'' # c) = elements a @ [c]"
    by (simp add: elements_append elements_segment[OF assms])
  moreover have "c \<noteq> ''..''" using assms by (simp add: segment_def)
  ultimately have "Clean (a @ CHR ''/'' # c) = render ?r (canon ?r (elements a) @ [c])"
    by (simp add: Clean_def canon_snoc)
  moreover have "names_ok (canon ?r (elements a))" by (simp add: names_ok_canon names_ok_elements)
  ultimately show ?thesis using False by (auto simp: Join2)
qed

lemma overwrite_empty: "overwrite data [] = data"
  by (simp add: overwrite_def)

lemma split_path_append_name:
  "CHR ''/'' \<notin> set t \<Longrightarrow>
   split_path (s @ t) = butlast (split_path s) @ [last (split_path s) @ t]"
proof (induction s)
  case Nil
  then show ?case by (simp add: split_path_no_slash)
next
  case (Cons c s)
  obtain w ws where w: "split_path s = w # ws"
    using split_path_nonempty[of s] by (cases "split_path s") auto
  obtain w' ws' where w': "split_path (s @ t) = w' # ws'"
    using split_path_nonempty[of "s @ t"] by (cases "split_path (s @ t)") auto
  show ?case
  proof (cases "c = CHR ''/''")
    case True
    then show ?thesis using Cons w by simp
  next
    case False
    show ?thesis
    proof (cases ws)
      case Nil
      with Cons w w' False show ?thesis by simp
    next
      case (Cons v vs)
      with Cons.IH[OF Cons.prems] w w' False show ?thesis by auto
    qed
  qed
qed

text \<open>The elements of a name and of the name with \<open>.tmp\<close> appended.\<close>

lemma elements_tmp:
  "\<exists>A l. elements (s @ ''.tmp'') = A @ [l @ ''.tmp''] \<and>
         elements s = A @ (if l \<noteq> [] \<and> l \<noteq> ''.'' then [l] else [])"
proof -
  let ?ws = "split_path s"
  let ?ok = "\<lambda>w. w \<noteq> [] \<and> w \<noteq> ''.''"
  have ne: "?ws \<noteq> []" by (rule split_path_nonempty)
  have a: "split_path (s @ ''.tmp'') = butlast ?ws @ [last ?ws @ ''.tmp'']"
    by (rule split_path_append_name) simp
  have "last ?ws @ ''.tmp'' \<noteq> ''.''"
  proof
    assume "last ?ws @ ''.tmp'' = ''.''"
    then have "length (last ?ws @ ''.tmp'') = 1" by simp
    then show False by simp
  qed
  then have e1: "elements (s @ ''.tmp'') = filter ?ok (butlast ?ws) @ [last ?ws @ ''.tmp'']"
    unfolding elements_def a by simp
  have "?ws = butlast ?ws @ [last ?ws]" using ne by simp
  then have "elements s = filter ?ok (butlast ?ws @ [last ?ws])" unfolding elements_def by simp
  then have e2: "elements s = filter ?ok (butlast ?ws) @ (if ?ok (last ?ws) then [last ?ws] else [])"
    by simp
  show ?thesis using e1 e2 by blast
qed

lemma nf_True_no_dotdot: "nf True stk \<Longrightarrow> stk = [] \<or> hd stk \<noteq> ''..''"
  by (cases stk) (auto split: if_splits)

lemma canon_True_dotdot: "canon True (xs @ [''..'']) = butlast (canon True xs)"
proof -
  let ?stk = "foldl (clean_step True) [] xs"
  have "nf True ?stk" by (rule nf_foldl) simp
  then have "clean_step True ?stk ''..'' = tl ?stk"
    using nf_True_no_dotdot[of ?stk] by (auto simp: clean_step_def)
  then show ?thesis by (simp add: canon_def butlast_rev)
qed

lemma is_rooted_tmp: "s \<noteq> [] \<Longrightarrow> is_rooted (s @ ''.tmp'') = is_rooted s"
  by (rule is_rooted_append)

lemma Join_last_nonempty: "r \<noteq> [] \<Longrightarrow> Join [a, r] \<noteq> []"
  by (cases "a = []") (auto simp: Join_def Clean_nonempty)

lemma filter_nonempty_names: "names_ok es \<Longrightarrow> filter (\<lambda>w. w \<noteq> []) es = es"
  by (induction es) auto

lemma final_elem_render:
  assumes "names_ok es"
  shows "final_elem (render r es) = (if es = [] then (if r then [] else ''.'') else last es)"
proof (cases "es = []")
  case True
  then show ?thesis by (simp add: final_elem_def render_def)
next
  case False
  have sl: "\<forall>e \<in> set es. CHR ''/'' \<notin> set e" using assms by (simp add: names_ok_def)
  have sp: "split_path (join_path es) = es" using split_path_join[OF False sl] .
  have "filter (\<lambda>w. w \<noteq> []) (split_path (render r es)) = es"
    using sp False filter_nonempty_names[OF assms] by (simp add: render_def)
  then show ?thesis using False by (simp add: final_elem_def last_rev split: list.splits)
qed

lemma lead_slashes_plain: "(\<And>cs. s \<noteq> CHR ''/'' # CHR ''/'' # cs) \<Longrightarrow> lead_slashes s = s"
  by (cases s rule: lead_slashes.cases) auto

lemma trail_slashes_plain: "s \<noteq> [] \<Longrightarrow> last s \<noteq> CHR ''/'' \<Longrightarrow> trail_slashes s = s"
proof (cases s)
  case Nil
  then show "s \<noteq> [] \<Longrightarrow> ?thesis" by simp
next
  case (Cons c cs)
  assume l: "last s \<noteq> CHR ''/''"
  show ?thesis
  proof (cases "cs = []")
    case True
    then show ?thesis using Cons by (simp add: trail_slashes_def)
  next
    case False
    then have "last cs \<noteq> CHR ''/''" using l Cons by simp
    then have "hd (rev cs) \<noteq> CHR ''/''" using False by (simp add: hd_rev)
    then have "dropWhile (\<lambda>x. x = CHR ''/'') (rev cs) = rev cs"
      using False by (cases "rev cs") auto
    then show ?thesis using Cons by (simp add: trail_slashes_def)
  qed
qed

text \<open>A name of the shape that \<open>Clean\<close> gives, cut before its last element.\<close>

lemma splitPath_snoc:
  assumes e: "e \<noteq> []" "CHR ''/'' \<notin> set e"
      and pre: "pre = [] \<or> last pre = CHR ''/''"
      and lead: "\<And>cs. pre @ e \<noteq> CHR ''/'' # CHR ''/'' # cs"
  shows "splitPath (pre @ e) =
     (if pre = [] then ''.'' else if length pre = 1 then pre else butlast pre, e)"
proof -
  have l: "last (pre @ e) \<noteq> CHR ''/''" using e by (metis last_appendR last_in_set)
  have p: "trail_slashes (lead_slashes (pre @ e)) = pre @ e"
    using lead_slashes_plain[OF lead] trail_slashes_plain[OF _ l] e by simp
  have b: "butlast (pre @ e) = pre @ butlast e" using e by (simp add: butlast_append)
  have nb: "\<And>x. x \<in> set (rev (butlast e)) \<Longrightarrow> x \<noteq> CHR ''/''"
    using e(2) by (auto dest: in_set_butlastD)
  have d1: "dropWhile (\<lambda>x. x \<noteq> CHR ''/'') (rev (butlast e) @ rev pre) =
        dropWhile (\<lambda>x. x \<noteq> CHR ''/'') (rev pre)"
    by (rule dropWhile_append2) (use nb in auto)
  have d2: "dropWhile (\<lambda>x. x \<noteq> CHR ''/'') (rev pre) = rev pre"
  proof (cases "pre = []")
    case True
    then show ?thesis by simp
  next
    case False
    then have "hd (rev pre) = CHR ''/''" using pre by (simp add: hd_rev)
    then show ?thesis using False by (cases "rev pre") auto
  qed
  have front: "rev (dropWhile (\<lambda>x. x \<noteq> CHR ''/'') (rev (butlast (pre @ e)))) = pre"
    using b d1 d2 by simp
  show ?thesis unfolding splitPath_def p Let_def front by simp
qed

lemma render_snoc_eq:
  "render r (es @ [e]) =
     (if es = [] then (if r then ''/'' else []) else render r es @ ''/'') @ e"
  by (cases "es = []") (auto simp: render_def join_path_snoc)

lemma render_no_double_slash:
  assumes "names_ok es"
  shows "render r es \<noteq> CHR ''/'' # CHR ''/'' # cs"
proof (cases es)
  case Nil
  then show ?thesis by (simp add: render_def)
next
  case (Cons x xs)
  then have x: "x \<noteq> []" "CHR ''/'' \<notin> set x" using assms by auto
  then have h: "join_path es \<noteq> []" "hd (join_path es) = hd x"
    using join_path_Cons_nonempty[of x xs] Cons by auto
  have "hd x \<noteq> CHR ''/''" using x by (cases x) auto
  then have "hd (join_path es) \<noteq> CHR ''/''" using h by simp
  then show ?thesis using h(1) Cons by (cases "join_path es") (auto simp: render_def)
qed

lemma splitPath_render:
  assumes "names_ok (es @ [e])"
  shows "splitPath (render r (es @ [e])) =
     (if es = [] then (if r then ''/'' else ''.'') else render r es, e)"
proof -
  let ?pre = "(if es = [] then (if r then ''/'' else []) else render r es @ ''/'')"
  have e: "e \<noteq> []" "CHR ''/'' \<notin> set e" using assms by auto
  have pre: "?pre = [] \<or> last ?pre = CHR ''/''" by simp
  have lead: "\<And>cs. ?pre @ e \<noteq> CHR ''/'' # CHR ''/'' # cs"
    using render_no_double_slash[OF assms, of r] unfolding render_snoc_eq by simp
  have ne: "es \<noteq> [] \<Longrightarrow> render r es \<noteq> []" using assms render_nonempty[of es r] by simp
  show ?thesis
    unfolding render_snoc_eq using splitPath_snoc[OF e pre lead] ne by auto
qed

lemma final_elem_name: "e \<noteq> [] \<Longrightarrow> CHR ''/'' \<notin> set e \<Longrightarrow> final_elem e = e"
  by (simp add: final_elem_def split_path_no_slash)

lemma not_endsWithDot_render:
  assumes "names_ok (es @ [e])" and "e \<noteq> ''..''"
  shows "\<not> endsWithDot (render r (es @ [e]))"
proof -
  have "segment e" using assms by (simp add: segment_def)
  then show ?thesis unfolding render_snoc_eq by (rule not_endsWithDot_snoc) simp
qed





lemma Clean_form: "\<exists>r es. names_ok es \<and> Clean s = render r es"
proof (cases "s = []")
  case True
  have "Clean s = render False []" using True by (simp add: Clean_def render_def)
  then show ?thesis by (metis names_ok_simps(1))
next
  case False
  have "names_ok (canon (is_rooted s) (elements s))" by (simp add: names_ok_canon names_ok_elements)
  then show ?thesis using False by (auto simp: Clean_def)
qed

lemma Join_form:
  assumes "b \<noteq> []"
  shows "\<exists>r es. names_ok es \<and> Join [a, b] = render r es"
proof (cases "a = []")
  case True
  then have "Join [a, b] = Clean b" using assms by (simp add: Join_def)
  then show ?thesis using Clean_form[of b] by simp
next
  case False
  then show ?thesis using Clean_form[of "a @ CHR ''/'' # b"] by (simp add: Join2)
qed

lemma canon_idem: "canon r (canon r xs) = canon r xs"
  using canon_append[of r xs "[]"] by simp

lemma Clean_idem: "Clean (Clean s) = Clean s"
proof (cases "s = []")
  case True
  then show ?thesis by (simp add: Clean_def render_def is_rooted_def elements_def canon_def)
next
  case False
  let ?r = "is_rooted s"
  let ?C = "canon ?r (elements s)"
  have ok: "names_ok ?C" by (simp add: names_ok_canon names_ok_elements)
  have cs: "Clean s = render ?r ?C" using False by (simp add: Clean_def)
  have "Clean (render ?r ?C) = render ?r (canon ?r ?C)"
    using render_nonempty[OF ok, of ?r] is_rooted_render[OF ok, of ?r] elements_render[OF ok, of ?r]
    by (simp add: Clean_def)
  then show ?thesis unfolding cs by (simp add: canon_idem)
qed

lemma Join_Clean_dot: "Join [Clean c, ''.''] = Clean c"
  using Clean_append_dot[OF Clean_nonempty, of c] by (simp add: Join2 Clean_nonempty Clean_idem)

text \<open>
  Cleaning a relative path before it is appended changes nothing: the leading \<open>..\<close> it
  keeps are the ones that reach into what stands before it.
\<close>

lemma foldl_clean_relative:
  "foldl (clean_step r) S (rev (foldl (clean_step False) T ys)) =
   foldl (clean_step r) (foldl (clean_step r) S (rev T)) ys"
proof (induction ys arbitrary: T)
  case Nil
  then show ?case by simp
next
  case (Cons y ys)
  have "foldl (clean_step r) S (rev (clean_step False T y)) =
        clean_step r (foldl (clean_step r) S (rev T)) y"
  proof (cases "y = ''..'' \<and> T \<noteq> [] \<and> hd T \<noteq> ''..''")
    case True
    then obtain t T' where T: "T = t # T'" and t: "t \<noteq> ''..''" by (cases T) auto
    have "clean_step False T y = T'" using True T by (simp add: clean_step_def)
    moreover have "clean_step r (foldl (clean_step r) S (rev T)) y = foldl (clean_step r) S (rev T')"
      using True T t by (simp add: clean_step_def)
    ultimately show ?thesis by simp
  next
    case False
    then have "clean_step False T y = y # T" by (auto simp: clean_step_def)
    then show ?thesis by simp
  qed
  then show ?case using Cons.IH[of "clean_step False T y"] by simp
qed

lemma canon_append_relative: "canon r (xs @ canon False ys) = canon r (xs @ ys)"
  using foldl_clean_relative[of r "foldl (clean_step r) [] xs" "[]" ys]
  by (simp add: canon_def)

lemma Join_Clean_relative:
  assumes "\<not> is_rooted c" and "c \<noteq> []"
  shows "Join [a, Clean c] = Join [a, c]"
proof (cases "a = []")
  case True
  then show ?thesis using assms(2) by (simp add: Join_def Clean_nonempty Clean_idem)
next
  case False
  let ?C = "canon False (elements c)"
  have ok: "names_ok ?C" by (simp add: names_ok_canon names_ok_elements)
  have cc: "Clean c = render False ?C" using assms by (simp add: Clean_def)
  have e: "elements (Clean c) = ?C" unfolding cc by (rule elements_render[OF ok])
  have "Clean (a @ CHR ''/'' # Clean c) =
        render (is_rooted a) (canon (is_rooted a) (elements a @ ?C))"
    using False by (simp add: Clean_def[of "a @ CHR ''/'' # Clean c"] is_rooted_append elements_append e)
  moreover have "Clean (a @ CHR ''/'' # c) =
        render (is_rooted a) (canon (is_rooted a) (elements a @ elements c))"
    using False by (simp add: Clean_def[of "a @ CHR ''/'' # c"] is_rooted_append elements_append)
  ultimately show ?thesis using False by (simp add: Join2 canon_append_relative)
qed

lemma ordinary_render:
  assumes "names_ok es" and "ordinary (render r es)"
  shows "\<exists>es' e. es = es' @ [e] \<and> e \<noteq> ''..''"
proof -
  have "es \<noteq> []" "last es \<noteq> ''..''"
    using assms final_elem_render[OF assms(1), of r] by (auto simp: ordinary_def split: if_splits)
  then show ?thesis by (metis append_butlast_last_id)
qed

lemma Join_rooted_not_dot:
  assumes "is_rooted a"
  shows "Join [a, b] \<noteq> ''.''"
proof -
  have a: "a \<noteq> []" using assms by (auto simp: is_rooted_def)
  have "is_rooted (a @ CHR ''/'' # b)" using assms a by (simp add: is_rooted_append)
  then have "Join [a, b] = render True (canon True (elements (a @ CHR ''/'' # b)))"
    using a by (simp add: Join2 Clean_def)
  then show ?thesis by (simp add: render_def)
qed

section \<open>The file system: lemmas\<close>

lemma map_of_update_same: "map_of (AList.update x v es) x = Some v"
  by (simp add: update_conv')

lemma map_of_update_other: "z \<noteq> x \<Longrightarrow> map_of (AList.update x v es) z = map_of es z"
  by (simp add: update_conv')

lemma map_of_delete_same: "map_of (AList.delete x es) x = None"
  by (simp add: delete_conv')

lemma lookup_append:
  "lookup (p @ q) t = (case lookup p t of Inl e \<Rightarrow> Inl e | Inr n \<Rightarrow> lookup q n)"
  by (induction p arbitrary: t) (auto split: node.splits option.splits)

lemma lookup_File: "lookup q (File b) = Inr n \<Longrightarrow> q = [] \<and> n = File b"
  by (cases q) auto

lemma lookup_put_node: "put_node p n t = Inr t' \<Longrightarrow> lookup p t' = Inr n"
proof (induction p n t arbitrary: t' rule: put_node.induct)
  case (1 new n)
  then show ?case by simp
next
  case (2 x new n)
  then show ?case by (auto simp: map_of_update_same split: node.splits)
next
  case (3 x y p new n)
  then obtain es0 m m' where n: "n = Dir es0" and m: "map_of es0 x = Some m"
    and m': "put_node (y # p) new m = Inr m'" and t': "t' = Dir (AList.update x m' es0)"
    by (auto split: node.splits option.splits sum.splits)
  have "lookup (y # p) m' = Inr new" using 3(1)[OF n m m'] .
  then show ?case unfolding t' by (simp add: map_of_update_same)
qed

lemma lookup_remove_node:
  "lookup p t = Inr n \<Longrightarrow> p \<noteq> [] \<Longrightarrow> lookup (p @ q) (remove_node p t) = Inl ENOENT"
proof (induction p t arbitrary: n rule: remove_node.induct)
  case (1 n)
  then show ?case by simp
next
  case (2 x t)
  then show ?case by (auto simp: map_of_delete_same split: node.splits option.splits)
next
  case (3 x y p t)
  then obtain es0 m where t: "t = Dir es0" and m: "map_of es0 x = Some m"
    and l: "lookup (y # p) m = Inr n"
    by (auto split: node.splits option.splits)
  have "lookup ((y # p) @ q) (remove_node (y # p) m) = Inl ENOENT"
    using 3(1)[OF t m l] by simp
  then show ?case unfolding t using m by (simp add: map_of_update_same)
qed

text \<open>Directories survive the calls that touch files only.\<close>

lemma dir_put_file:
  "put_node p (File b) t = Inr t' \<Longrightarrow> lookup q t = Inr (Dir es) \<Longrightarrow>
   \<forall>a. lookup p t \<noteq> Inr (Dir a) \<Longrightarrow> \<exists>es'. lookup q t' = Inr (Dir es')"
proof (induction p "File b" t arbitrary: t' q es rule: put_node.induct)
  case (1 n)
  then show ?case by simp
next
  case (2 x n)
  then obtain es0 where n: "n = Dir es0" and t': "t' = Dir (AList.update x (File b) es0)"
    by (auto split: node.splits)
  show ?case
  proof (cases q)
    case Nil
    then show ?thesis using t' by simp
  next
    case (Cons z q')
    have "z \<noteq> x"
    proof
      assume "z = x"
      with 2(2) Cons n obtain m where m: "map_of es0 x = Some m" "lookup q' m = Inr (Dir es)"
        by (auto split: option.splits)
      with 2(3) n have "\<forall>a. m \<noteq> Dir a" by simp
      then obtain c where "m = File c" by (cases m) auto
      with m(2) show False using lookup_File by blast
    qed
    then show ?thesis using 2(2) Cons n t' by (simp add: map_of_update_other)
  qed
next
  case (3 x y p n)
  then obtain es0 m m' where n: "n = Dir es0" and m: "map_of es0 x = Some m"
    and m': "put_node (y # p) (File b) m = Inr m'" and t': "t' = Dir (AList.update x m' es0)"
    by (auto split: node.splits option.splits sum.splits)
  show ?case
  proof (cases q)
    case Nil
    then show ?thesis using t' by simp
  next
    case (Cons z q')
    show ?thesis
    proof (cases "z = x")
      case False
      then show ?thesis using 3(3) Cons n t' by (simp add: map_of_update_other)
    next
      case True
      with 3(3) Cons n m have "lookup q' m = Inr (Dir es)" by simp
      moreover from 3(4) n m have "\<forall>a. lookup (y # p) m \<noteq> Inr (Dir a)" by simp
      ultimately obtain es' where "lookup q' m' = Inr (Dir es')"
        using 3(1)[OF n m m'] by blast
      then show ?thesis using True Cons t' by (simp add: map_of_update_same)
    qed
  qed
qed

lemma dir_remove_file:
  "lookup p t = Inr (File b) \<Longrightarrow> lookup q t = Inr (Dir es) \<Longrightarrow>
   \<exists>es'. lookup q (remove_node p t) = Inr (Dir es')"
proof (induction p t arbitrary: q es rule: remove_node.induct)
  case (1 n)
  then show ?case by simp
next
  case (2 x t)
  then obtain es0 where t: "t = Dir es0" and x: "map_of es0 x = Some (File b)"
    by (auto split: node.splits option.splits)
  show ?case
  proof (cases q)
    case Nil
    then show ?thesis using t by simp
  next
    case (Cons z q')
    have "z \<noteq> x"
    proof
      assume "z = x"
      with 2(2) Cons t x have "lookup q' (File b) = Inr (Dir es)" by simp
      then show False using lookup_File by blast
    qed
    then show ?thesis using 2(2) Cons t by simp
  qed
next
  case (3 x y p t)
  then obtain es0 m where t: "t = Dir es0" and m: "map_of es0 x = Some m"
    and l: "lookup (y # p) m = Inr (File b)"
    by (auto split: node.splits option.splits)
  show ?case
  proof (cases q)
    case Nil
    then show ?thesis using t m by simp
  next
    case (Cons z q')
    show ?thesis
    proof (cases "z = x")
      case False
      then show ?thesis using 3(3) Cons t m by (simp add: map_of_update_other)
    next
      case True
      with 3(3) Cons t m have "lookup q' m = Inr (Dir es)" by simp
      then obtain es' where "lookup q' (remove_node (y # p) m) = Inr (Dir es')"
        using 3(1)[OF t m l] by blast
      then show ?thesis using True Cons t m by (simp add: map_of_update_same)
    qed
  qed
qed

text \<open>A regular file found after one of these calls was there before, unless the call wrote it.\<close>

lemma file_put_node:
  "put_node p (File y) t = Inr t' \<Longrightarrow> q \<noteq> p \<Longrightarrow> lookup q t' = Inr (File b) \<Longrightarrow>
   lookup q t = Inr (File b)"
proof (induction p "File y" t arbitrary: t' q rule: put_node.induct)
  case (1 n)
  then show ?case by simp
next
  case (2 x n)
  then obtain es0 where n: "n = Dir es0" and t': "t' = Dir (AList.update x (File y) es0)"
    by (auto split: node.splits)
  show ?case
  proof (cases q)
    case Nil
    then show ?thesis using 2(3) t' by simp
  next
    case (Cons z q')
    show ?thesis
    proof (cases "z = x")
      case False
      then show ?thesis using 2(3) Cons n t' by (simp add: map_of_update_other)
    next
      case True
      with 2(3) Cons t' have "lookup q' (File y) = Inr (File b)" by (simp add: map_of_update_same)
      then have "q' = []" using lookup_File by blast
      with True Cons 2(2) show ?thesis by simp
    qed
  qed
next
  case (3 x v p n)
  then obtain es0 m m' where n: "n = Dir es0" and m: "map_of es0 x = Some m"
    and m': "put_node (v # p) (File y) m = Inr m'" and t': "t' = Dir (AList.update x m' es0)"
    by (auto split: node.splits option.splits sum.splits)
  show ?case
  proof (cases q)
    case Nil
    then show ?thesis using 3(4) t' by simp
  next
    case (Cons z q')
    show ?thesis
    proof (cases "z = x")
      case False
      then show ?thesis using 3(4) Cons n t' by (simp add: map_of_update_other)
    next
      case True
      with 3(4) Cons t' have "lookup q' m' = Inr (File b)" by (simp add: map_of_update_same)
      moreover have "q' \<noteq> v # p" using 3(3) True Cons by simp
      ultimately have "lookup q' m = Inr (File b)" using 3(1)[OF n m m'] by blast
      then show ?thesis using True Cons n m by simp
    qed
  qed
qed

lemma file_put_dir:
  "put_node p (Dir []) t = Inr t' \<Longrightarrow> lookup q t' = Inr (File b) \<Longrightarrow> lookup q t = Inr (File b)"
proof (induction p "Dir []" t arbitrary: t' q rule: put_node.induct)
  case (1 n)
  then show ?case by simp
next
  case (2 x n)
  then obtain es0 where n: "n = Dir es0" and t': "t' = Dir (AList.update x (Dir []) es0)"
    by (auto split: node.splits)
  show ?case
  proof (cases q)
    case Nil
    then show ?thesis using 2(2) t' by simp
  next
    case (Cons z q')
    show ?thesis
    proof (cases "z = x")
      case False
      then show ?thesis using 2(2) Cons n t' by (simp add: map_of_update_other)
    next
      case True
      with 2(2) Cons t' have "lookup q' (Dir []) = Inr (File b)" by (simp add: map_of_update_same)
      then show ?thesis by (cases q') auto
    qed
  qed
next
  case (3 x v p n)
  then obtain es0 m m' where n: "n = Dir es0" and m: "map_of es0 x = Some m"
    and m': "put_node (v # p) (Dir []) m = Inr m'" and t': "t' = Dir (AList.update x m' es0)"
    by (auto split: node.splits option.splits sum.splits)
  show ?case
  proof (cases q)
    case Nil
    then show ?thesis using 3(3) t' by simp
  next
    case (Cons z q')
    show ?thesis
    proof (cases "z = x")
      case False
      then show ?thesis using 3(3) Cons n t' by (simp add: map_of_update_other)
    next
      case True
      with 3(3) Cons t' have "lookup q' m' = Inr (File b)" by (simp add: map_of_update_same)
      then have "lookup q' m = Inr (File b)" using 3(1)[OF n m m'] by blast
      then show ?thesis using True Cons n m by simp
    qed
  qed
qed

lemma resolve_value:
  "resolve fs name = Inr p \<Longrightarrow>
   p = canon True ((if is_rooted name then [] else cwd fs) @ elements name)"
  by (auto simp: resolve_def split: if_splits sum.splits node.splits)

lemma resolve_later:
  "resolve fs name = Inr p \<Longrightarrow> cwd fs' = cwd fs \<Longrightarrow>
   resolve fs' name = Inr p \<or> resolve fs' name = Inl ENOENT"
  by (auto simp: resolve_def split: if_splits sum.splits node.splits)

lemma os_Stat_Inr:
  "os_Stat fs name = Inr n \<longleftrightarrow> (\<exists>p. resolve fs name = Inr p \<and> lookup p (tree fs) = Inr n)"
  by (auto simp: os_Stat_def split: sum.splits)

lemma resolve_Join_segment:
  assumes "segment c" and "resolve fs (Join [a, c]) = Inr p"
  shows "\<exists>p'. p = p' @ [c]"
proof -
  obtain r es where ok: "names_ok es" and j: "Join [a, c] = render r (es @ [c])"
    using Join_segment_form[OF assms(1)] by blast
  have "names_ok (es @ [c])" using ok names_ok_segment[OF assms(1)] by simp
  then have e: "elements (Join [a, c]) = es @ [c]" unfolding j by (rule elements_render)
  have "c \<noteq> ''..''" using assms(1) by (simp add: segment_def)
  then have "\<And>base. canon True (base @ es @ [c]) = canon True (base @ es) @ [c]"
    using canon_snoc[of c True] by (metis append_assoc)
  then show ?thesis using resolve_value[OF assms(2)] e by simp
qed

lemma Stat_fails_below:
  assumes "os_Stat fs name = Inl e0" and "resolve fs name = Inr p"
  shows "\<exists>e1. lookup (p @ q) (tree fs) = Inl e1"
proof -
  from assms obtain e where "lookup p (tree fs) = Inl e"
    by (auto simp: os_Stat_def split: sum.splits)
  then show ?thesis by (simp add: lookup_append)
qed

lemma dir_remove_back:
  "lookup q (remove_node p t) = Inr (Dir a) \<Longrightarrow> \<exists>a'. lookup q t = Inr (Dir a')"
proof (induction p t arbitrary: q a rule: remove_node.induct)
  case (1 n)
  then show ?case by simp
next
  case (2 x t)
  show ?case
  proof (cases t)
    case (File c)
    with 2 show ?thesis by simp
  next
    case (Dir es0)
    show ?thesis
    proof (cases q)
      case Nil
      with Dir show ?thesis by simp
    next
      case (Cons z q')
      with 2 Dir show ?thesis
        by (cases "z = x") (auto simp: map_of_delete_same)
    qed
  qed
next
  case (3 x y p t)
  show ?case
  proof (cases t)
    case (File c)
    with 3(2) show ?thesis by simp
  next
    case (Dir es0)
    show ?thesis
    proof (cases "map_of es0 x")
      case None
      with 3(2) Dir show ?thesis by simp
    next
      case (Some m)
      show ?thesis
      proof (cases q)
        case Nil
        with Dir show ?thesis by simp
      next
        case (Cons z q')
        show ?thesis
        proof (cases "z = x")
          case False
          with 3(2) Dir Some Cons show ?thesis by (simp add: map_of_update_other)
        next
          case True
          with 3(2) Dir Some Cons have "lookup q' (remove_node (y # p) m) = Inr (Dir a)"
            by (simp add: map_of_update_same)
          then obtain a' where "lookup q' m = Inr (Dir a')" using 3(1)[OF Dir Some] by blast
          then show ?thesis using True Cons Dir Some by simp
        qed
      qed
    qed
  qed
qed

lemma resolve_kept:
  assumes "resolve fs name = Inr p" and "cwd fs' = cwd fs"
      and "\<And>a. lookup (cwd fs) (tree fs) = Inr (Dir a) \<Longrightarrow> \<exists>a'. lookup (cwd fs) (tree fs') = Inr (Dir a')"
  shows "resolve fs' name = Inr p"
proof (cases "is_rooted name")
  case True
  with assms(1) show ?thesis by (auto simp: resolve_def split: if_splits)
next
  case False
  with assms(1) obtain a where a: "lookup (cwd fs) (tree fs) = Inr (Dir a)"
    by (auto simp: resolve_def split: if_splits sum.splits node.splits)
  then obtain a' where "lookup (cwd fs) (tree fs') = Inr (Dir a')" using assms(3) by blast
  with assms(1,2) False a show ?thesis by (auto simp: resolve_def split: if_splits)
qed

lemma open_trunc_Inr:
  assumes "open_trunc fs name = Inr fs'"
  shows "\<exists>p. resolve fs name = Inr p \<and> (\<forall>a. lookup p (tree fs) \<noteq> Inr (Dir a)) \<and>
             put_node p (File []) (tree fs) = Inr (tree fs') \<and> cwd fs' = cwd fs"
  using assms by (auto simp: open_trunc_def split: sum.splits node.splits)

lemma write_at_Inr:
  assumes "write_at fs name data = Inr fs'"
  shows "\<exists>p old. resolve fs name = Inr p \<and> lookup p (tree fs) = Inr (File old) \<and>
             put_node p (File (overwrite data old)) (tree fs) = Inr (tree fs') \<and> cwd fs' = cwd fs"
  using assms by (auto simp: write_at_def split: sum.splits node.splits)

lemma os_Mkdir_Inr:
  assumes "os_Mkdir fs name = Inr fs'"
  shows "cwd fs' = cwd fs \<and>
         (\<forall>q b. lookup q (tree fs') = Inr (File b) \<longrightarrow> lookup q (tree fs) = Inr (File b))"
proof -
  from assms obtain p where "put_node p (Dir []) (tree fs) = Inr (tree fs')" and "cwd fs' = cwd fs"
    by (auto simp: os_Mkdir_def split: sum.splits)
  then show ?thesis using file_put_dir by blast
qed

lemma os_MkdirAll_Inr:
  "os_MkdirAll fs name = Inr fs' \<Longrightarrow>
   cwd fs' = cwd fs \<and>
   (\<forall>q b. lookup q (tree fs') = Inr (File b) \<longrightarrow> lookup q (tree fs) = Inr (File b))"
proof (induction fs name arbitrary: fs' rule: os_MkdirAll.induct)
  case (1 fs path)
  show ?case
  proof (cases "os_Stat fs path")
    case (Inr d)
    with 1(2) have "fs' = fs" by (simp add: os_MkdirAll.simps[of fs path] split: if_splits)
    then show ?thesis by simp
  next
    case (Inl err)
    define up where "up = (if 1 < elem_start path then os_MkdirAll fs (take (elem_start path - 1) path)
                 else Inr fs)"
    from 1(2) Inl obtain fs1 where u: "up = Inr fs1"
      and r: "os_Mkdir fs1 path = Inr fs' \<or> fs' = fs1"
      unfolding up_def
      by (auto simp: os_MkdirAll.simps[of fs path] split: sum.splits node.splits if_splits)
    have k1: "cwd fs1 = cwd fs \<and>
         (\<forall>q b. lookup q (tree fs1) = Inr (File b) \<longrightarrow> lookup q (tree fs) = Inr (File b))"
    proof (cases "1 < elem_start path")
      case True
      then show ?thesis using 1(1)[OF Inl True] u unfolding up_def by simp
    next
      case False
      then show ?thesis using u unfolding up_def by simp
    qed
    from r show ?thesis
    proof
      assume "os_Mkdir fs1 path = Inr fs'"
      then show ?thesis using os_Mkdir_Inr k1 by metis
    next
      assume "fs' = fs1"
      then show ?thesis using k1 by simp
    qed
  qed
qed

lemma os_Rename_sys: "os_Rename fs old new = Inr fs' \<Longrightarrow> sys_rename fs old new = Inr fs'"
  by (cases "sys_rename fs old new") (auto simp: os_Rename_def split: option.splits)

text \<open>Renaming a regular file: afterwards the new name holds it.\<close>

lemma sys_rename_file:
  assumes "sys_rename fs old new = Inr fs'" and "resolve fs old = Inr po"
      and "lookup po (tree fs) = Inr (File b)"
  shows "\<exists>pn. resolve fs new = Inr pn \<and> resolve fs' new = Inr pn \<and>
              lookup pn (tree fs') = Inr (File b) \<and> cwd fs' = cwd fs \<and>
              (\<forall>a. lookup pn (tree fs) \<noteq> Inr (Dir a)) \<and> pn \<noteq> [] \<and>
              (po = pn \<and> fs' = fs \<or>
               po \<noteq> pn \<and> put_node pn (File b) (remove_node po (tree fs)) = Inr (tree fs'))"
proof -
  from assms obtain pn where pn: "resolve fs new = Inr pn"
    by (auto simp: sys_rename_def split: sum.splits)
  have ne: "po \<noteq> []" "pn \<noteq> []"
    using assms pn by (auto simp: sys_rename_def split: if_splits)
  show ?thesis
  proof (cases "po = pn")
    case True
    with assms pn ne have "fs' = fs" by (simp add: sys_rename_def)
    with True pn assms(3) ne show ?thesis by auto
  next
    case False
    with assms pn ne have nd: "\<forall>a. lookup pn (tree fs) \<noteq> Inr (Dir a)"
      and put: "put_node pn (File b) (remove_node po (tree fs)) = Inr (tree fs')"
      and cw: "cwd fs' = cwd fs"
      by (auto simp: sys_rename_def IsDir_def split: sum.splits node.splits list.splits)
    have l: "lookup pn (tree fs') = Inr (File b)" using lookup_put_node[OF put] .
    have nd': "\<forall>a. lookup pn (remove_node po (tree fs)) \<noteq> Inr (Dir a)"
      using nd dir_remove_back by blast
    have keep: "\<exists>a'. lookup (cwd fs) (tree fs') = Inr (Dir a')"
      if h: "lookup (cwd fs) (tree fs) = Inr (Dir a)" for a
    proof -
      obtain a1 where "lookup (cwd fs) (remove_node po (tree fs)) = Inr (Dir a1)"
        using dir_remove_file[OF assms(3) h] by blast
      then show ?thesis using dir_put_file[OF put _ nd'] by blast
    qed
    have "resolve fs' new = Inr pn" using resolve_kept[OF pn cw] keep by blast
    with pn l cw nd ne False put show ?thesis by auto
  qed
qed

lemma os_Rename_file:
  assumes "os_Rename fs old new = Inr fs'" and "resolve fs old = Inr po"
      and "lookup po (tree fs) = Inr (File b)"
  shows "\<exists>pn. resolve fs new = Inr pn \<and> resolve fs' new = Inr pn \<and>
              lookup pn (tree fs') = Inr (File b) \<and> cwd fs' = cwd fs \<and>
              (\<forall>a. lookup pn (tree fs) \<noteq> Inr (Dir a)) \<and> pn \<noteq> [] \<and>
              (po = pn \<and> fs' = fs \<or>
               po \<noteq> pn \<and> put_node pn (File b) (remove_node po (tree fs)) = Inr (tree fs'))"
  using sys_rename_file[OF os_Rename_sys[OF assms(1)] assms(2,3)] .

lemma os_Rename_resolves:
  assumes "os_Rename fs old new = Inr fs'"
  shows "\<exists>po. resolve fs old = Inr po"
proof -
  have "sys_rename fs old new = Inr fs'" using os_Rename_sys[OF assms] .
  then show ?thesis by (auto simp: sys_rename_def split: sum.splits)
qed

text \<open>After the two calls of \<open>ioutil.WriteFile\<close> the file holds exactly the data.\<close>

lemma WriteFile_content:
  assumes "open_trunc fs1 name = Inr fs2" and "write_at fs2 name data = Inr fs3"
  shows "\<exists>p. resolve fs1 name = Inr p \<and> resolve fs2 name = Inr p \<and>
             (\<forall>a. lookup p (tree fs1) \<noteq> Inr (Dir a)) \<and>
             put_node p (File []) (tree fs1) = Inr (tree fs2) \<and>
             put_node p (File data) (tree fs2) = Inr (tree fs3) \<and>
             lookup p (tree fs3) = Inr (File data) \<and> cwd fs2 = cwd fs1 \<and> cwd fs3 = cwd fs1"
proof -
  obtain p where p: "resolve fs1 name = Inr p" "\<forall>a. lookup p (tree fs1) \<noteq> Inr (Dir a)"
      "put_node p (File []) (tree fs1) = Inr (tree fs2)" "cwd fs2 = cwd fs1"
    using open_trunc_Inr[OF assms(1)] by blast
  obtain p2 old where p2: "resolve fs2 name = Inr p2" "lookup p2 (tree fs2) = Inr (File old)"
      "put_node p2 (File (overwrite data old)) (tree fs2) = Inr (tree fs3)" "cwd fs3 = cwd fs2"
    using write_at_Inr[OF assms(2)] by blast
  have eq: "p2 = p" using resolve_value[OF p(1)] resolve_value[OF p2(1)] p(4) by simp
  have "lookup p (tree fs2) = Inr (File [])" using lookup_put_node[OF p(3)] .
  with p2(2) eq have old: "old = []" by simp
  have "lookup p (tree fs3) = Inr (File data)"
    using lookup_put_node[OF p2(3)] eq old by (simp add: overwrite_empty)
  with p p2 eq old show ?thesis by (auto simp: overwrite_empty)
qed

text \<open>
  Where the name with \<open>.tmp\<close> appended resolves to: a sibling of where the name resolves
  to, or a node one or more levels below it.
\<close>

lemma resolve_tmp:
  assumes "s \<noteq> []" and "resolve fs s = Inr pn" and "resolve fs (s @ ''.tmp'') = Inr pt"
  shows "\<exists>P l. pt = P @ [l @ ''.tmp''] \<and> (pn = P @ [l] \<or> (\<exists>B. P = pn @ B))"
proof -
  obtain A l where e1: "elements (s @ ''.tmp'') = A @ [l @ ''.tmp'']"
    and e2: "elements s = A @ (if l \<noteq> [] \<and> l \<noteq> ''.'' then [l] else [])"
    using elements_tmp by blast
  let ?base = "(if is_rooted s then [] else cwd fs)"
  let ?P = "canon True (?base @ A)"
  have nt: "l @ ''.tmp'' \<noteq> ''..''"
  proof
    assume "l @ ''.tmp'' = ''..''"
    then have "length (l @ ''.tmp'') = 2" by simp
    then show False by simp
  qed
  have "pt = canon True (?base @ A @ [l @ ''.tmp''])"
    using resolve_value[OF assms(3)] e1 is_rooted_tmp[OF assms(1)] by simp
  then have pt: "pt = ?P @ [l @ ''.tmp'']"
    using canon_snoc[OF nt, of True "?base @ A"] by simp
  have pn: "pn = canon True (?base @ elements s)" using resolve_value[OF assms(2)] .
  show ?thesis
  proof (cases "l \<noteq> [] \<and> l \<noteq> ''.''")
    case False
    then have "elements s = A" using e2 by (simp split: if_splits)
    then have "pn = ?P" using pn by simp
    then show ?thesis using pt by auto
  next
    case True
    show ?thesis
    proof (cases "l = ''..''")
      case False
      have "elements s = A @ [l]" using e2 True by simp
      then have "pn = ?P @ [l]" using pn canon_snoc[OF False, of True "?base @ A"] by simp
      then show ?thesis using pt by blast
    next
      case dd: True
      have "elements s = A @ [''..'']" using e2 True dd by simp
      then have "pn = butlast ?P"
        using pn canon_True_dotdot[of "?base @ A"] by simp
      then have "\<exists>B. ?P = pn @ B" by (metis append_butlast_last_id append_Nil2 butlast.simps(1))
      then show ?thesis using pt by blast
    qed
  qed
qed

lemma lookup_parent_dir:
  assumes "lookup (A @ B) t = Inr n" and "B \<noteq> []"
  shows "\<exists>a. lookup A t = Inr (Dir a)"
proof -
  obtain x B' where B: "B = x # B'" using assms(2) by (cases B) auto
  from assms(1) obtain m where m: "lookup A t = Inr m" "lookup (x # B') m = Inr n"
    unfolding B lookup_append by (auto split: sum.splits)
  then show ?thesis by (cases m) auto
qed

lemma lookup_put_sibling:
  "put_node (P @ [b]) n t = Inr t' \<Longrightarrow> a \<noteq> b \<Longrightarrow> lookup (P @ [a]) t' = lookup (P @ [a]) t"
proof (induction P arbitrary: t t')
  case Nil
  then show ?case by (auto simp: map_of_update_other split: node.splits)
next
  case (Cons x P)
  obtain y p where yp: "P @ [b] = y # p" by (cases "P @ [b]") auto
  from Cons.prems(1) obtain es0 m m' where t: "t = Dir es0" and m: "map_of es0 x = Some m"
    and m': "put_node (P @ [b]) n m = Inr m'" and t': "t' = Dir (AList.update x m' es0)"
    using yp by (auto split: node.splits option.splits sum.splits)
  have "lookup (P @ [a]) m' = lookup (P @ [a]) m" using Cons.IH[OF m' Cons.prems(2)] .
  then show ?case using t m t' by (simp add: map_of_update_same)
qed

lemma put_node_again: "put_node p n t = Inr t' \<Longrightarrow> \<exists>t''. put_node p n' t' = Inr t''"
proof (induction p n t arbitrary: t' rule: put_node.induct)
  case (1 new n)
  then show ?case by simp
next
  case (2 x new n)
  then show ?case by (auto split: node.splits)
next
  case (3 x y p new n)
  then obtain es0 m m' where n: "n = Dir es0" and m: "map_of es0 x = Some m"
    and m': "put_node (y # p) new m = Inr m'" and t': "t' = Dir (AList.update x m' es0)"
    by (auto split: node.splits option.splits sum.splits)
  obtain m'' where "put_node (y # p) n' m' = Inr m''" using 3(1)[OF n m m'] by blast
  then show ?case unfolding t' by (simp add: map_of_update_same)
qed

text \<open>After \<open>open_trunc\<close>, writing through the descriptor is writing to the name.\<close>

lemma write_after_open:
  assumes "open_trunc fs1 name = Inr fs2"
  shows "\<exists>p t. resolve fs1 name = Inr p \<and> lookup p (tree fs2) = Inr (File []) \<and>
               put_node p (File (overwrite data [])) (tree fs2) = Inr t \<and>
               write_at fs2 name data = Inr (fs2\<lparr>tree := t\<rparr>)"
proof -
  obtain p where p: "resolve fs1 name = Inr p" "\<forall>a. lookup p (tree fs1) \<noteq> Inr (Dir a)"
      "put_node p (File []) (tree fs1) = Inr (tree fs2)" "cwd fs2 = cwd fs1"
    using open_trunc_Inr[OF assms] by blast
  have l: "lookup p (tree fs2) = Inr (File [])" using lookup_put_node[OF p(3)] .
  have "\<And>a. lookup (cwd fs1) (tree fs1) = Inr (Dir a) \<Longrightarrow>
             \<exists>a'. lookup (cwd fs1) (tree fs2) = Inr (Dir a')"
    using dir_put_file[OF p(3) _ p(2)] by blast
  then have r: "resolve fs2 name = Inr p" using resolve_kept[OF p(1) p(4)] by blast
  obtain t where t: "put_node p (File (overwrite data [])) (tree fs2) = Inr t"
    using put_node_again[OF p(3)] by blast
  have "write_at fs2 name data = Inr (fs2\<lparr>tree := t\<rparr>)"
    using r l t by (simp add: write_at_def)
  then show ?thesis using p(1) l t by blast
qed

text \<open>
  The parent directory that \<open>splitPath\<close> names resolves to the path before the last
  element, and the base name, taken from there, is the path of the whole name.
\<close>

lemma resolve_parent:
  assumes ok: "names_ok (es @ [e])" and res: "resolve fs (render r (es @ [e])) = Inr p"
  shows "\<exists>pp. resolve fs (fst (splitPath (render r (es @ [e])))) = Inr pp \<and>
              at_path pp e = p \<and> (e \<noteq> ''..'' \<longrightarrow> p = pp @ [e])"
proof -
  let ?base = "if r then [] else cwd fs"
  let ?name = "render r (es @ [e])"
  have e: "e \<noteq> []" "CHR ''/'' \<notin> set e" "e \<noteq> ''.''" using ok by auto
  have rt: "is_rooted ?name = r" using is_rooted_render[OF ok] .
  have el: "elements ?name = es @ [e]" using elements_render[OF ok] .
  have p: "p = canon True (?base @ es @ [e])" using resolve_value[OF res] rt el by simp
  have cw: "\<not> r \<Longrightarrow> \<exists>a. lookup (cwd fs) (tree fs) = Inr (Dir a)"
    using res rt by (auto simp: resolve_def split: if_splits sum.splits node.splits)
  have oks: "names_ok es" using ok by simp
  have pd: "resolve fs (fst (splitPath ?name)) = Inr (canon True (?base @ es))"
  proof (cases "es = []")
    case True
    show ?thesis
    proof (cases r)
      case True
      with \<open>es = []\<close> show ?thesis
        unfolding splitPath_render[OF ok] by (simp add: resolve_def is_rooted_def elements_def)
    next
      case False
      with \<open>es = []\<close> cw show ?thesis
        unfolding splitPath_render[OF ok]
        by (auto simp: resolve_def is_rooted_def elements_def)
    qed
  next
    case False
    have "render r es \<noteq> []" using render_nonempty[OF oks] .
    then show ?thesis
      unfolding splitPath_render[OF ok] using False is_rooted_render[OF oks, of r]
        elements_render[OF oks, of r] cw
      by (auto simp: resolve_def)
  qed
  have ee: "elements e = [e]" using e by (simp add: elements_def split_path_no_slash)
  have nr: "\<not> is_rooted e" using e by (cases e) (auto simp: is_rooted_def)
  have at: "at_path (canon True (?base @ es)) e = p"
    unfolding at_path_def p using ee nr canon_append[of True "?base @ es" "[e]"] by simp
  have "e \<noteq> ''..'' \<longrightarrow> p = canon True (?base @ es) @ [e]"
    unfolding p using canon_snoc[of e True "?base @ es"] by simp
  then show ?thesis using pd at by blast
qed

lemma put_node_exists:
  "lookup p t = Inr n \<Longrightarrow> p \<noteq> [] \<Longrightarrow> \<exists>t'. put_node p new t = Inr t'"
proof (induction p new t arbitrary: n rule: put_node.induct)
  case (1 new n)
  then show ?case by simp
next
  case (2 x new t)
  then show ?case by (auto split: node.splits)
next
  case (3 x y p new t)
  then obtain es0 m where t: "t = Dir es0" and m: "map_of es0 x = Some m"
    and l: "lookup (y # p) m = Inr n"
    by (auto split: node.splits option.splits)
  obtain m' where "put_node (y # p) new m = Inr m'" using 3(1)[OF t m l] by blast
  then show ?case using t m by simp
qed

lemma delete_update: "AList.delete x (AList.update x v es) = AList.delete x es"
  by (induction es) auto

lemma update_update: "AList.update x v (AList.update x w es) = AList.update x v es"
  by (induction es) auto

lemma remove_put:
  "put_node p new t = Inr t' \<Longrightarrow> remove_node p t' = remove_node p t"
proof (induction p new t arbitrary: t' rule: put_node.induct)
  case (1 new n)
  then show ?case by simp
next
  case (2 x new t)
  then show ?case by (auto simp: delete_update split: node.splits)
next
  case (3 x y p new t)
  then obtain es0 m m' where t: "t = Dir es0" and m: "map_of es0 x = Some m"
    and m': "put_node (y # p) new m = Inr m'" and t': "t' = Dir (AList.update x m' es0)"
    by (auto split: node.splits option.splits sum.splits)
  have "remove_node (y # p) m' = remove_node (y # p) m" using 3(1)[OF t m m'] .
  then show ?case using t m t' by (simp add: map_of_update_same update_update)
qed

lemma RemoveAll_existing:
  assumes ok: "names_ok (es @ [e])" and e: "e \<noteq> ''..''"
      and res: "resolve fs (render r (es @ [e])) = Inr p" and l: "lookup p (tree fs) = Inr n"
  shows "os_RemoveAll fs (render r (es @ [e])) = (None, fs\<lparr>tree := remove_node p (tree fs)\<rparr>)"
proof -
  let ?name = "render r (es @ [e])"
  let ?gone = "fs\<lparr>tree := remove_node p (tree fs)\<rparr>"
  have ne: "?name \<noteq> []" using render_nonempty[OF ok] .
  have nd: "\<not> endsWithDot ?name" using not_endsWithDot_render[OF ok e] .
  have fe: "final_elem ?name = e" using final_elem_render[OF ok, of r] by simp
  have e0: "e \<noteq> []" "e \<noteq> ''.''" "CHR ''/'' \<notin> set e" using ok by auto
  obtain pp where pp: "resolve fs (fst (splitPath ?name)) = Inr pp" "at_path pp e = p" "p = pp @ [e]"
    using resolve_parent[OF ok res] e by blast
  obtain pd where sp: "splitPath ?name = (pd, e)" "resolve fs pd = Inr pp"
    using splitPath_render[OF ok, of r] pp(1) by auto
  have head: "os_RemoveAll fs ?name =
      (case os_Remove fs ?name of
         Inr fs' \<Rightarrow> (None, fs')
       | Inl err \<Rightarrow>
           if IsNotExist err then (None, fs)
           else (case os_Open fs pd of
                   Inl e \<Rightarrow> if IsNotExist e then (None, fs) else (Some e, fs)
                 | Inr parent \<Rightarrow>
                     (case removeAllFrom fs parent e of
                        (Some (PathError opn p e), fs') \<Rightarrow>
                          (Some (PathError opn (pd @ ''/'' @ p) e), fs')
                      | r \<Rightarrow> r)))"
    using ne nd sp(1) by (simp add: os_RemoveAll_def split: sum.splits)
  show ?thesis
  proof (cases n)
    case (File b)
    then have "do_unlink fs p e = Inr ?gone" using l e e0 by (simp add: do_unlink_def)
    then have "os_Remove fs ?name = Inr ?gone" using res fe by (simp add: os_Remove_def)
    then show ?thesis using head by simp
  next
    case (Dir es0)
    then have u: "do_unlink fs p e = Inl EISDIR" using l by (simp add: do_unlink_def)
    show ?thesis
    proof (cases "es0 = []")
      case True
      then have "do_rmdir fs p e = Inr ?gone" using l Dir e e0 by (simp add: do_rmdir_def)
      then have "os_Remove fs ?name = Inr ?gone" using res fe u by (simp add: os_Remove_def)
      then show ?thesis using head by simp
    next
      case False
      then have "do_rmdir fs p e = Inl ENOTEMPTY" using l Dir e e0 by (simp add: do_rmdir_def)
      then have rm: "os_Remove fs ?name = Inl (PathError ''remove'' ?name ENOTEMPTY)"
        using res fe u by (simp add: os_Remove_def)
      obtain a where "lookup pp (tree fs) = Inr (Dir a)"
        using lookup_parent_dir[of pp "[e]" "tree fs" n] l pp(3) by auto
      then have op: "os_Open fs pd = Inr pp" using sp(2) by (simp add: os_Open_def)
      have pne: "p \<noteq> []" using pp(3) by simp
      obtain t' where t': "put_node p (Dir []) (tree fs) = Inr t'"
        using put_node_exists[OF l pne] by blast
      have em: "empty_dir p (tree fs) = t'" using t' pne by (simp add: empty_dir_def)
      have lt: "lookup p t' = Inr (Dir [])" using lookup_put_node[OF t'] .
      have "do_rmdir (fs\<lparr>tree := t'\<rparr>) p e = Inr (fs\<lparr>tree := remove_node p t'\<rparr>)"
        using lt e e0 by (simp add: do_rmdir_def)
      then have "do_rmdir (fs\<lparr>tree := t'\<rparr>) p e = Inr ?gone"
        using remove_put[OF t'] by simp
      then have "removeAllFrom fs pp e = (None, ?gone)"
        using pp(2) u l Dir em final_elem_name[OF e0(1,3)]
        by (simp add: removeAllFrom_def Let_def)
      then show ?thesis using head rm op by (simp add: IsNotExist_def)
    qed
  qed
qed





lemma RemoveAll_ordinary:
  assumes ok: "names_ok es" and ord: "ordinary (render r es)"
      and res: "resolve fs (render r es) = Inr p" and l: "lookup p (tree fs) = Inr n"
  shows "p \<noteq> [] \<and>
         os_RemoveAll fs (render r es) = (None, fs\<lparr>tree := remove_node p (tree fs)\<rparr>) \<and>
         os_Stat (fs\<lparr>tree := remove_node p (tree fs)\<rparr>) (render r es) =
           Inl (PathError ''stat'' (render r es) ENOENT)"
proof -
  let ?name = "render r es"
  let ?gone = "fs\<lparr>tree := remove_node p (tree fs)\<rparr>"
  obtain es' e where es: "es = es' @ [e]" and e: "e \<noteq> ''..''"
    using ordinary_render[OF ok ord] by blast
  have ok': "names_ok (es' @ [e])" using ok es by simp
  have rm: "os_RemoveAll fs ?name = (None, ?gone)"
    using RemoveAll_existing[OF ok' e] res l unfolding es by blast
  obtain pp where "p = pp @ [e]" using resolve_parent[OF ok'] res e unfolding es by blast
  then have pne: "p \<noteq> []" by simp
  have "lookup p (tree ?gone) = Inl ENOENT"
    using lookup_remove_node[OF l pne, of "[]"] by simp
  moreover have "resolve ?gone ?name = Inr p \<or> resolve ?gone ?name = Inl ENOENT"
    using resolve_later[OF res, of ?gone] by simp
  ultimately have "os_Stat ?gone ?name = Inl (PathError ''stat'' ?name ENOENT)"
    by (auto simp: os_Stat_def)
  then show ?thesis using pne rm by simp
qed

section \<open>The driver: lemmas\<close>


lemma getOrCreateMutex_free:
  assumes "mutexes d k \<noteq> Some Locked"
  shows "\<exists>d1. getOrCreateMutex d k = (Unlocked, d1) \<and> dir d1 = dir d"
proof (cases "mutexes d k")
  case None
  then show ?thesis by (simp add: getOrCreateMutex_def)
next
  case (Some m)
  with assms have "m = Unlocked" by (cases m) auto
  with Some show ?thesis by (simp add: getOrCreateMutex_def)
qed

lemma Lock_Unlocked: "Lock Unlocked = Some Locked"
  by (simp add: Lock_def)

text \<open>The two outcomes of a \<open>Delete\<close> whose collection is accepted and whose lock is free.\<close>

lemma Delete_unfold:
  assumes "Clean c \<noteq> ''/''" "Clean c \<noteq> ''.''"
      and "getOrCreateMutex d (Join [Clean c, Clean r]) = (Unlocked, d1)" "dir d1 = dir d"
  shows "Delete d c r fs =
     (case os_Stat fs (Join [dir d, Join [Clean c, Clean r]]) of
        Inl err \<Rightarrow>
          if Contains (Error err) ''no such file'' then Some (None, d1, fs)
          else Some (Some (Errorf (''Unable to stat '' @ Join [dir d, Join [Clean c, Clean r]] @
                     '' - '' @ Error err @ ''!'')), d1, fs)
      | Inr fi \<Rightarrow>
          (case os_RemoveAll fs (Join [dir d, Join [Clean c, Clean r]]) of
             (e, fs') \<Rightarrow> Some (e, d1, fs')))"
  using assms Clean_nonempty[of c]
  by (auto simp: Delete_def Let_def Lock_Unlocked IsDir_def IsRegular_def
           split: sum.splits node.splits prod.splits)

lemma outcome_Some: "outcome X = Some (e, fs) \<Longrightarrow> \<exists>d. X = Some (e, d, fs)"
  by (auto simp: outcome_def)

lemma ReadAll_missing:
  assumes "c \<noteq> []" and "os_Stat fs (Join [dir d, c]) = Inl e0"
  shows "ReadAll d c fs =
     (Inl (Errorf (''Directory '' @ [CHR 0x27] @ Join [dir d, c] @ [CHR 0x27] @
                   '' does not exist - '' @ Error e0 @ ''!'')), fs)"
  using assms by (simp add: ReadAll_def Let_def)

text \<open>A successful \<open>Write\<close>, call by call.\<close>

lemma Write_steps_success:
  assumes "Write_steps marshal d c r v fs = Some (None, d', fss)"
  shows "\<exists>b fs1 fs2 fs3 fs4.
           c \<noteq> [] \<and> r \<noteq> [] \<and> dir d' = dir d \<and> marshal v = Inr b \<and>
           fss = [fs1, fs2, fs3, fs4] \<and>
           os_MkdirAll fs (Join [dir d, c]) = Inr fs1 \<and>
           open_trunc fs1 (Join [Join [dir d, c], r] @ ''.tmp'') = Inr fs2 \<and>
           write_at fs2 (Join [Join [dir d, c], r] @ ''.tmp'') b = Inr fs3 \<and>
           os_Rename fs3 (Join [Join [dir d, c], r] @ ''.tmp'') (Join [Join [dir d, c], r]) = Inr fs4"
proof -
  from assms have c: "c \<noteq> []" and r: "r \<noteq> []"
    by (auto simp: Write_steps_def split: if_splits)
  obtain m d1 where g: "getOrCreateMutex d c = (m, d1)" by (cases "getOrCreateMutex d c")
  then have dd: "dir d1 = dir d" by (auto simp: getOrCreateMutex_def split: option.splits)
  from assms c r g dd show ?thesis
    by (auto simp: Write_steps_def Let_def ioutil_WriteFile_def
             split: option.splits sum.splits prod.splits)
qed

lemma Fish_round_trip: "plain t \<Longrightarrow> unmarshal_Fish (json_open @ t @ json_close) = Inr (Fish t)"
  by (simp add: unmarshal_Fish_def Let_def)

lemma steps_outcome_Some: "steps_outcome X = Some (e, fss) \<Longrightarrow> \<exists>d. X = Some (e, d, fss)"
  by (auto simp: steps_outcome_def)

text \<open>
  A writer that runs alone.
\<close>

lemma step_alone:
  "step marshal (alone d fs w) 0 =
     (case writer_step marshal w d fs of (w', d', fs', moved) \<Rightarrow> alone d' fs' w')"
  by (auto simp: step_def alone_def split: prod.splits option.splits)

lemma run_Cons: "run marshal (i # is) s = run marshal is (step marshal s i)"
  by (simp add: run_def)

lemma run_Nil: "run marshal [] s = s"
  by (simp add: run_def)

lemma step_returned:
  "w_stage w = Returned e \<Longrightarrow> step marshal (alone d fs w) 0 = alone d fs w"
  by (simp add: step_alone writer_step_def Let_def)

lemma run_returned_zeros:
  "w_stage w = Returned e \<Longrightarrow> set js \<subseteq> {0} \<Longrightarrow> run marshal js (alone d fs w) = alone d fs w"
  by (induction js) (simp_all add: run_Nil run_Cons step_returned)

lemma getOrCreateMutex_dir: "getOrCreateMutex d k = (m, d1) \<Longrightarrow> dir d1 = dir d"
  by (auto simp: getOrCreateMutex_def split: option.splits)

text \<open>
  A writer that runs alone takes the seven steps of \<open>Write\<close>: it returns what \<open>Write\<close>
  returns and leaves the driver and the file system that \<open>Write\<close> leaves.
\<close>

lemma writer_alone_is_Write:
  assumes "Write marshal d c r v fs = Some (e, d', fs')"
  shows "\<exists>w'. run marshal [0, 0, 0, 0, 0, 0, 0] (alone d fs (new_writer c r v)) = alone d' fs' w' \<and>
              w_stage w' = Returned e \<and> w_mutex w' = Unlocked"
proof -
  let ?w = "new_writer c r v"
  let ?fnl = "Join [Join [dir d, c], r]"
  let ?tmp = "?fnl @ ''.tmp''"
  note defs = run_Cons step_alone writer_step_def Let_def returns_def Unlock_def
  show ?thesis
  proof (cases "c = [] \<or> r = []")
    case True
    then have "d' = d" "fs' = fs"
      "e = Some (Errorf ''Missing collection - no place to save record!'') \<and> c = [] \<or>
       e = Some (Errorf ''Missing resource - unable to save record - no name!'') \<and> c \<noteq> [] \<and> r = []"
      using assms by (auto simp: Write_def Write_steps_def split: if_splits)
    then show ?thesis
      by (auto simp: defs new_writer_def run_Nil)
  next
    case False
    then have c: "c \<noteq> []" and r: "r \<noteq> []" by auto
    obtain m d1 where g: "getOrCreateMutex d c = (m, d1)" by (cases "getOrCreateMutex d c")
    have dd: "dir d1 = dir d" using getOrCreateMutex_dir[OF g] .
    from assms c r g obtain m' where lk: "Lock m = Some m'"
      by (cases "Lock m") (auto simp: Write_def Write_steps_def)
    let ?key_bluefish = "?w\<lparr>w_mutex := m', w_stage := Mkdir\<rparr>"
    have two: "run marshal [0, 0, 0, 0, 0, 0, 0] (alone d fs ?w) =
               run marshal [0, 0, 0, 0, 0] (alone d1 fs ?key_bluefish)"
      using c r g lk by (simp add: defs new_writer_def)
    have W: "Write marshal d c r v fs =
       (case os_MkdirAll fs (Join [dir d, c]) of
          Inl e1 \<Rightarrow> Some (Some e1, d1, fs)
        | Inr fs1 \<Rightarrow>
            (case marshal v of
               Inl e1 \<Rightarrow> Some (Some e1, d1, fs1)
             | Inr b \<Rightarrow>
                 (case open_trunc fs1 ?tmp of
                    Inl e1 \<Rightarrow> Some (Some e1, d1, fs1)
                  | Inr fs2 \<Rightarrow>
                      (case write_at fs2 ?tmp b of
                         Inl e1 \<Rightarrow> Some (Some e1, d1, fs2)
                       | Inr fs3 \<Rightarrow>
                           (case os_Rename fs3 ?tmp ?fnl of
                              Inl e1 \<Rightarrow> Some (Some e1, d1, fs3)
                            | Inr fs4 \<Rightarrow> Some (None, d1, fs4))))))"
      using c r g lk dd
      by (simp add: Write_def Write_steps_def Let_def ioutil_WriteFile_def split: sum.splits)
    show ?thesis
    proof (cases "os_MkdirAll fs (Join [dir d, c])")
      case (Inl e1)
      with W assms have "e = Some e1" "d' = d1" "fs' = fs" by auto
      then show ?thesis unfolding two using Inl dd
        by (auto simp: defs new_writer_def run_Nil)
    next
      case mk: (Inr fs1)
      show ?thesis
      proof (cases "marshal v")
        case (Inl e1)
        with W assms mk have "e = Some e1" "d' = d1" "fs' = fs1" by auto
        then show ?thesis unfolding two using Inl mk dd
          by (auto simp: defs new_writer_def run_Nil)
      next
        case ma: (Inr b)
        show ?thesis
        proof (cases "open_trunc fs1 ?tmp")
          case (Inl e1)
          with W assms mk ma have "e = Some e1" "d' = d1" "fs' = fs1" by auto
          then show ?thesis unfolding two using Inl mk ma dd
            by (auto simp: defs new_writer_def run_Nil)
        next
          case op: (Inr fs2)
          obtain p t where p: "resolve fs1 ?tmp = Inr p" "lookup p (tree fs2) = Inr (File [])"
              "put_node p (File (overwrite b [])) (tree fs2) = Inr t"
              "write_at fs2 ?tmp b = Inr (fs2\<lparr>tree := t\<rparr>)"
            using write_after_open[OF op] by blast
          let ?fs3 = "fs2\<lparr>tree := t\<rparr>"
          let ?w6 = "?w\<lparr>w_mutex := m', w_bytes := b, w_fd := None, w_stage := Rename\<rparr>"
          have six: "run marshal [0, 0, 0, 0, 0] (alone d1 fs ?key_bluefish) =
                     run marshal [0] (alone d1 ?fs3 ?w6)"
            using mk ma op p dd by (simp add: defs new_writer_def)
          show ?thesis
          proof (cases "os_Rename ?fs3 ?tmp ?fnl")
            case (Inl e1)
            with W assms mk ma op p(4) have "e = Some e1" "d' = d1" "fs' = ?fs3" by auto
            then show ?thesis unfolding two six using Inl dd
              by (auto simp: defs new_writer_def run_Nil)
          next
            case (Inr fs4)
            with W assms mk ma op p(4) have "e = None" "d' = d1" "fs' = fs4" by auto
            then show ?thesis unfolding two six using Inr dd
              by (auto simp: defs new_writer_def run_Nil split: sum.splits)
          qed
        qed
      qed
    qed
  qed
qed

text \<open>
  The registry of a driver made by \<open>New\<close> never holds a locked mutex, so \<open>Write\<close> and
  \<open>Delete\<close> on it always return.
\<close>

lemma New_registry_free: "fst (New dir0 fs) = Some d \<Longrightarrow> registry_free d"
  by (auto simp: New_def Let_def registry_free_def split: if_splits sum.splits)

lemma getOrCreateMutex_registry_free:
  assumes "registry_free d" and "getOrCreateMutex d k = (m, d1)"
  shows "m = Unlocked \<and> registry_free d1"
proof (cases "mutexes d k")
  case None
  then show ?thesis using assms by (auto simp: getOrCreateMutex_def registry_free_def split: if_splits)
next
  case (Some m0)
  have "m0 = Unlocked" using assms(1) Some by (cases m0) (auto simp: registry_free_def)
  then show ?thesis using assms Some by (auto simp: getOrCreateMutex_def)
qed

lemma Write_returns:
  assumes "registry_free d"
  shows "\<exists>e d' fs'. Write marshal d c r v fs = Some (e, d', fs') \<and> registry_free d'"
proof -
  obtain m d1 where g: "getOrCreateMutex d c = (m, d1)" by (cases "getOrCreateMutex d c")
  then have m: "m = Unlocked" "registry_free d1"
    using getOrCreateMutex_registry_free[OF assms g] by auto
  show ?thesis
    using assms g m
    by (auto simp: Write_def Write_steps_def Let_def Lock_def
        split: sum.splits prod.splits option.splits)
qed

lemma Delete_returns:
  assumes "registry_free d"
  shows "\<exists>e d' fs'. Delete d c r fs = Some (e, d', fs') \<and> registry_free d'"
proof -
  obtain m d1 where g: "getOrCreateMutex d (Join [Clean c, Clean r]) = (m, d1)"
    by (cases "getOrCreateMutex d (Join [Clean c, Clean r])")
  then have m: "m = Unlocked" "registry_free d1"
    using getOrCreateMutex_registry_free[OF assms g] by auto
  show ?thesis
    using assms g m
    by (auto simp: Delete_def Let_def Lock_def
        split: sum.splits prod.splits option.splits)
qed


section \<open>The examples, evaluated\<close>

lemma Clean_blocked_root: "Clean ''/tmp/file/db'' = ''/tmp/file/db''" by code_simp

lemma blocked_root_safe: "\<not> unsafe_root ''/tmp/file/db''" by code_simp

lemma Stat_blocked_root: "os_Stat fs_blocked ''/tmp/file/db'' = Inl (PathError ''stat'' ''/tmp/file/db'' ENOTDIR)"
  by code_simp

lemma MkdirAll_blocked_root: "os_MkdirAll fs_blocked ''/tmp/file/db'' = Inl (PathError ''mkdir'' ''/tmp/file'' ENOTDIR)"
  by code_simp

lemma Clean_fish: "Clean ''fish'' = ''fish''" by code_simp

lemma key_bluefish: "Join [''fish'', Clean ''bluefish''] = ''fish/bluefish''" by code_simp



lemma d_store_no_mutex: "mutexes d_store k = None" by (simp add: d_store_def)

lemma segment_fish: "segment ''fish''" by code_simp

lemma name_fish: "Join [dir d_store, ''fish''] = ''/tmp/db/fish''" by code_simp

lemma Stat_fish: "os_Stat fs_store ''/tmp/db/fish'' = Inr (Dir [(''redfish'', File ''{}'')])" by code_simp

lemma Delete_fish_outcome: "outcome (Delete d_store ''fish'' [] fs_store) =
   Some (None, \<lparr>cwd = [], tree = Dir [(''tmp'', Dir [(''db'', Dir [(''other'', Dir [])])])]\<rparr>)"
  by code_simp

lemma Clean_dotdot: "Clean ''..'' = ''..''" by code_simp

lemma Clean_store_root: "Clean (dir d_store) = dir d_store" by code_simp

lemma resolve_store_root: "resolve fs_store (dir d_store) = Inr [''tmp'', ''db'']" by code_simp

lemma lookup_store_root: "lookup [''tmp'', ''db''] (tree fs_store) =
   Inr (Dir [(''fish'', Dir [(''redfish'', File ''{}'')]), (''other'', Dir [])])" by code_simp

lemma remove_store_root: "remove_node [''tmp'', ''db''] (tree fs_store) = Dir [(''tmp'', Dir [])]" by code_simp

lemma marshal_red: "marshal_Fish (Fish ''red'') = Inr red_bytes" by code_simp

lemma unmarshal_red: "unmarshal_Fish red_bytes = Inr (Fish ''red'')" by code_simp

lemma Write_red_steps:
  "steps_outcome (Write_steps marshal_Fish d_store ''fish'' ''redfish'' (Fish ''red'') fs_store) =
     Some (None, [fs_store, fs_opened, fs_written, fs_renamed])"
  by code_simp

lemma Write_red: "outcome (Write marshal_Fish d_store ''fish'' ''redfish'' (Fish ''red'') fs_store) =
     Some (None, fs_renamed)"
  by code_simp

lemma name_redfish: "Join [Join [dir d_store, ''fish''], ''redfish''] = ''/tmp/db/fish/redfish''"
  by code_simp

lemma resolve_redfish: "resolve fs_written ''/tmp/db/fish/redfish'' = Inr [''tmp'', ''db'', ''fish'', ''redfish'']"
  by code_simp

lemma Stat_nothinghere: "os_Stat fs_store (Join [dir d_store, ''nothinghere'']) =
   Inl (PathError ''stat'' ''/tmp/db/nothinghere'' ENOENT)" by code_simp

lemma Clean_home_x: "Clean ''/home/user/x'' = ''/home/user/x''" by code_simp

lemma home_x_safe: "\<not> unsafe_root ''/home/user/x''" by code_simp

lemma Stat_home_x: "os_Stat \<lparr>cwd = [], tree = Dir []\<rparr> ''/home/user/x'' =
   Inl (PathError ''stat'' ''/home/user/x'' ENOENT)" by code_simp

lemma MkdirAll_home_x: "os_MkdirAll \<lparr>cwd = [], tree = Dir []\<rparr> ''/home/user/x'' =
   Inr \<lparr>cwd = [], tree = Dir [(''home'', Dir [(''user'', Dir [(''x'', Dir [])])])]\<rparr>" by code_simp

lemma not_rooted_fish: "\<not> is_rooted ''fish''" by code_simp

lemma ordinary_fish: "ordinary (Join [dir d_store, ''fish''])" by code_simp

lemma ordinary_store_root: "ordinary (dir d_store)" by code_simp

section \<open>The claims\<close>

text \<open>
  Claim C1 does not hold of the code. \<open>getOrCreateMutex\<close> returns the mutex by value:
  after one caller has locked the mutex it got for \<open>fish\<close>, the next caller for \<open>fish\<close>
  gets an unlocked one. With two writers of the collection \<open>fish\<close>, after each has called
  \<open>getOrCreateMutex\<close> and \<open>Lock\<close>, both have passed \<open>Lock\<close> and hold a locked mutex
  of their own, and the mutex in the registry is unlocked.
\<close>

theorem both_writers_hold_the_lock:
  "(case getOrCreateMutex d_store ''fish'' of
      (m1, d1) \<Rightarrow> Lock m1 = Some Locked \<and> fst (getOrCreateMutex d1 ''fish'') = Unlocked) \<and>
   map w_stage (writers (run marshal_Fish [0, 1, 0, 1] two_writers)) = [Mkdir, Mkdir] \<and>
   map w_mutex (writers (run marshal_Fish [0, 1, 0, 1] two_writers)) = [Locked, Locked] \<and>
   mutexes (drv (run marshal_Fish [0, 1, 0, 1] two_writers)) ''fish'' = Some Unlocked"
  by code_simp

text \<open>
  Claim C2 does not hold of the code, for the defect of claim C1. Two writers of the record
  \<open>fish/redfish\<close>, one with a blue fish and one with a red fish, take their steps in turn.
  Both open the same temporary file; the blue payload is written first and the shorter red
  payload over its start; the first rename publishes the file and the second finds no
  temporary file. Both calls have returned, and the record holds the red payload followed
  by the last byte of the blue one, which is neither payload and does not decode.
\<close>

theorem concurrent_writes_mix_payloads:
  "map w_stage (writers (run marshal_Fish [0, 1, 0, 1, 0, 1, 0, 1, 0, 1, 0, 1, 0, 1] two_writers)) =
     [Returned None,
      Returned (Some (LinkError ''rename'' ''/tmp/db/fish/redfish.tmp'' ''/tmp/db/fish/redfish'' ENOENT))] \<and>
   ioutil_ReadFile (fsys (run marshal_Fish [0, 1, 0, 1, 0, 1, 0, 1, 0, 1, 0, 1, 0, 1] two_writers))
     ''/tmp/db/fish/redfish'' = Inr (red_bytes @ ''}'') \<and>
   marshal_Fish (Fish ''blue'') = Inr blue_bytes \<and>
   marshal_Fish (Fish ''red'') = Inr red_bytes \<and>
   red_bytes @ ''}'' \<noteq> blue_bytes \<and> red_bytes @ ''}'' \<noteq> red_bytes \<and>
   unmarshal_Fish (red_bytes @ ''}'') = Inl (JSONError ''invalid character'')"
  by code_simp

text \<open>
  Claim C3, as the code has it: \<open>New\<close> fails with the unsafe-location error, and leaves the
  file system as it was, exactly when the cleaned path is the root \<open>/\<close>, the drive root
  \<open>C:\<close> with a backslash, the tilde, or \<open>/home/\<close> followed by one segment without a slash. A path two
  segments below \<open>/home\<close> is accepted.
\<close>

theorem New_rejects_iff:
  "New dir0 fs = (None, Some (Errorf ''Missing or unsafe filepath - no place to create db!''), fs) \<longleftrightarrow>
     (Clean dir0 = ''/'' \<or> Clean dir0 = ''C:'' @ [CHR 0x5C] \<or> Clean dir0 = ''~'' \<or>
      (\<exists>seg. Clean dir0 = ''/home/'' @ seg \<and> CHR ''/'' \<notin> set seg))"
proof -
  have u: "unsafe_root (Clean dir0) \<longleftrightarrow>
     (Clean dir0 = ''/'' \<or> Clean dir0 = ''C:'' @ [CHR 0x5C] \<or> Clean dir0 = ''~'' \<or>
      (\<exists>seg. Clean dir0 = ''/home/'' @ seg \<and> CHR ''/'' \<notin> set seg))"
    unfolding unsafe_root_def home_guard_iff by simp
  have "New dir0 fs = (None, Some (Errorf ''Missing or unsafe filepath - no place to create db!''), fs)
        \<longleftrightarrow> unsafe_root (Clean dir0)"
    by (auto simp: New_def Let_def split: sum.splits)
  then show ?thesis using u by simp
qed

text \<open>
  The path \<open>/home/user/x\<close>, two segments below the home prefix, is not rejected: on an
  empty file system \<open>New\<close> returns a driver and no error, and creates the directory.
\<close>

theorem New_two_below_home_accepted:
  "New ''/home/user/x'' \<lparr>cwd = [], tree = Dir []\<rparr> =
     (Some \<lparr>mutexes = Map.empty, dir = ''/home/user/x''\<rparr>, None,
      \<lparr>cwd = [], tree = Dir [(''home'', Dir [(''user'', Dir [(''x'', Dir [])])])]\<rparr>)"
  by (simp add: New_def Clean_home_x home_x_safe Stat_home_x MkdirAll_home_x)

text \<open>
  Claim C4 does not hold of the code, for the defect of claim C1. The two writers of the
  record \<open>fish/redfish\<close> both pass \<open>Lock\<close> and share the temporary file. The first
  opens it and writes its whole payload; the second opens it, which cuts it to length
  zero; the first renames it. The first call has returned without an error, and the final
  path holds an empty file: neither what it held before nor the payload.
\<close>

theorem concurrent_write_publishes_empty_file:
  "map w_stage (writers (run marshal_Fish [0, 1, 0, 1, 0, 1, 0, 1, 0, 0, 1, 0] two_writers)) =
     [Returned None, WriteData] \<and>
   ioutil_ReadFile (fsys (run marshal_Fish [0, 1, 0, 1, 0, 1, 0, 1, 0, 0, 1, 0] two_writers))
     ''/tmp/db/fish/redfish'' = Inr [] \<and>
   ioutil_ReadFile (fsys two_writers) ''/tmp/db/fish/redfish'' = Inr ''{}'' \<and>
   marshal_Fish (Fish ''blue'') = Inr blue_bytes \<and> blue_bytes \<noteq> []"
  by code_simp

text \<open>
  A \<open>Write\<close> that runs alone does follow the protocol. When it succeeds, it has made the
  collection directory, opened and written the
  temporary file, and renamed it, in this order. The temporary file's name is the final
  name with \<open>.tmp\<close> appended; both resolve to entries of the same directory. Before the
  rename the temporary file holds the whole payload; after it the final path holds the
  payload and the temporary name is gone. In every state on the way, a regular file at the
  final path holds what it held before the call or the whole payload.
\<close>

theorem Write_atomic_publish:
  assumes "Write_steps marshal d c r v fs = Some (None, d', fss)"
  shows "\<exists>b fs1 fs2 fs3 fs4 P n.
     marshal v = Inr b \<and> fss = [fs1, fs2, fs3, fs4] \<and>
     os_MkdirAll fs (Join [dir d, c]) = Inr fs1 \<and>
     open_trunc fs1 (Join [Join [dir d, c], r] @ ''.tmp'') = Inr fs2 \<and>
     write_at fs2 (Join [Join [dir d, c], r] @ ''.tmp'') b = Inr fs3 \<and>
     os_Rename fs3 (Join [Join [dir d, c], r] @ ''.tmp'') (Join [Join [dir d, c], r]) = Inr fs4 \<and>
     resolve fs3 (Join [Join [dir d, c], r]) = Inr (P @ [n]) \<and>
     resolve fs3 (Join [Join [dir d, c], r] @ ''.tmp'') = Inr (P @ [n @ ''.tmp'']) \<and>
     lookup (P @ [n @ ''.tmp'']) (tree fs3) = Inr (File b) \<and>
     lookup (P @ [n]) (tree fs4) = Inr (File b) \<and>
     lookup (P @ [n @ ''.tmp'']) (tree fs4) = Inl ENOENT \<and>
     (segment r \<longrightarrow> n = r) \<and>
     (\<forall>s \<in> set fss. \<forall>x. lookup (P @ [n]) (tree s) = Inr (File x) \<longrightarrow>
        x = b \<or> lookup (P @ [n]) (tree fs) = Inr (File x))"
proof -
  let ?fnl = "Join [Join [dir d, c], r]"
  let ?tmp = "?fnl @ ''.tmp''"
  obtain b fs1 fs2 fs3 fs4 where s:
      "r \<noteq> []" "marshal v = Inr b" "fss = [fs1, fs2, fs3, fs4]"
      "os_MkdirAll fs (Join [dir d, c]) = Inr fs1"
      "open_trunc fs1 ?tmp = Inr fs2" "write_at fs2 ?tmp b = Inr fs3"
      "os_Rename fs3 ?tmp ?fnl = Inr fs4"
    using Write_steps_success[OF assms] by blast
  obtain p where p: "resolve fs1 ?tmp = Inr p"
      "put_node p (File []) (tree fs1) = Inr (tree fs2)"
      "put_node p (File b) (tree fs2) = Inr (tree fs3)"
      "lookup p (tree fs3) = Inr (File b)" "cwd fs3 = cwd fs1"
    using WriteFile_content[OF s(5,6)] by blast
  obtain po where po: "resolve fs3 ?tmp = Inr po" using os_Rename_resolves[OF s(7)] by blast
  have pop: "po = p" using resolve_value[OF po] resolve_value[OF p(1)] p(5) by simp
  then have lpo: "lookup po (tree fs3) = Inr (File b)" using p(4) by simp
  obtain pn where pn: "resolve fs3 ?fnl = Inr pn" "lookup pn (tree fs4) = Inr (File b)"
      "\<forall>a. lookup pn (tree fs3) \<noteq> Inr (Dir a)"
      "po = pn \<and> fs4 = fs3 \<or>
       po \<noteq> pn \<and> put_node pn (File b) (remove_node po (tree fs3)) = Inr (tree fs4)"
    using os_Rename_file[OF s(7) po lpo] by blast
  have fne: "?fnl \<noteq> []" using Join_last_nonempty[OF s(1)] .
  obtain P l where Pl: "po = P @ [l @ ''.tmp'']" "pn = P @ [l] \<or> (\<exists>B. P = pn @ B)"
    using resolve_tmp[OF fne pn(1) po] by blast
  have sib: "pn = P @ [l]"
  proof (rule ccontr)
    assume "pn \<noteq> P @ [l]"
    with Pl(2) obtain B where "P = pn @ B" by blast
    then have "lookup (pn @ (B @ [l @ ''.tmp''])) (tree fs3) = Inr (File b)"
      using lpo Pl(1) by simp
    then have "\<exists>a. lookup pn (tree fs3) = Inr (Dir a)" by (rule lookup_parent_dir) simp
    with pn(3) show False by blast
  qed
  have ne: "l @ ''.tmp'' \<noteq> l" by simp
  then have diff: "po \<noteq> pn" using Pl(1) sib by simp
  with pn(4) have put4: "put_node (P @ [l]) (File b) (remove_node po (tree fs3)) = Inr (tree fs4)"
    using sib by simp
  have gone: "lookup (P @ [l @ ''.tmp'']) (tree fs4) = Inl ENOENT"
  proof -
    have "lookup (P @ [l @ ''.tmp'']) (tree fs4) =
          lookup (P @ [l @ ''.tmp'']) (remove_node po (tree fs3))"
      using lookup_put_sibling[OF put4 ne] .
    also have "\<dots> = Inl ENOENT"
      using lookup_remove_node[OF lpo, of "[]"] Pl(1) by simp
    finally show ?thesis .
  qed
  have back1: "lookup pn (tree fs) = Inr (File x)" if "lookup pn (tree fs1) = Inr (File x)" for x
    using os_MkdirAll_Inr[OF s(4)] that by blast
  have back2: "lookup pn (tree fs1) = Inr (File x)" if "lookup pn (tree fs2) = Inr (File x)" for x
    using file_put_node[OF p(2) _ that] diff pop by simp
  have back3: "lookup pn (tree fs2) = Inr (File x)" if "lookup pn (tree fs3) = Inr (File x)" for x
    using file_put_node[OF p(3) _ that] diff pop by simp
  have never: "\<forall>s \<in> set fss. \<forall>x. lookup pn (tree s) = Inr (File x) \<longrightarrow>
        x = b \<or> lookup pn (tree fs) = Inr (File x)"
    unfolding s(3) using back1 back2 back3 pn(2) by auto
  have name: "segment r \<longrightarrow> l = r"
  proof
    assume "segment r"
    then obtain p' where "pn = p' @ [r]" using resolve_Join_segment[OF _ pn(1)] by blast
    then show "l = r" using sib by simp
  qed
  show ?thesis
    using s(2,3,4,5,6,7) pn(1,2) po lpo gone name never unfolding sib Pl(1) by blast
qed

text \<open>
  Writing the red fish to the example store.
\<close>

theorem Write_atomic_publish_witness:
  "\<exists>d'. Write_steps marshal_Fish d_store ''fish'' ''redfish'' (Fish ''red'') fs_store =
           Some (None, d', [fs_store, fs_opened, fs_written, fs_renamed]) \<and>
        lookup [''tmp'', ''db'', ''fish'', ''redfish.tmp''] (tree fs_written) = Inr (File red_bytes) \<and>
        lookup [''tmp'', ''db'', ''fish'', ''redfish''] (tree fs_renamed) = Inr (File red_bytes) \<and>
        lookup [''tmp'', ''db'', ''fish'', ''redfish.tmp''] (tree fs_renamed) = Inl ENOENT"
proof -
  obtain d' where w: "Write_steps marshal_Fish d_store ''fish'' ''redfish'' (Fish ''red'') fs_store =
      Some (None, d', [fs_store, fs_opened, fs_written, fs_renamed])"
    using steps_outcome_Some[OF Write_red_steps] by blast
  obtain b fs1 fs2 fs3 fs4 P n where c:
      "marshal_Fish (Fish ''red'') = Inr b"
      "[fs_store, fs_opened, fs_written, fs_renamed] = [fs1, fs2, fs3, fs4]"
      "resolve fs3 ''/tmp/db/fish/redfish'' = Inr (P @ [n])"
      "lookup (P @ [n @ ''.tmp'']) (tree fs3) = Inr (File b)"
      "lookup (P @ [n]) (tree fs4) = Inr (File b)"
      "lookup (P @ [n @ ''.tmp'']) (tree fs4) = Inl ENOENT"
    using Write_atomic_publish[OF w] unfolding name_redfish by blast
  have b: "b = red_bytes" using c(1) marshal_red by simp
  have f: "fs3 = fs_written" "fs4 = fs_renamed" using c(2) by auto
  have "P @ [n] = [''tmp'', ''db'', ''fish''] @ [''redfish'']"
    using c(3) resolve_redfish f by simp
  then have Pn: "P = [''tmp'', ''db'', ''fish'']" "n = ''redfish''" by auto
  show ?thesis using w c(4,5,6) unfolding b f Pn by simp
qed

text \<open>
  Claim C5: when \<open>Write\<close> succeeds and the decoder returns \<open>v\<close> on the bytes the encoder
  makes of \<open>v\<close>, a following \<open>Read\<close> of the same collection and resource returns \<open>v\<close>.
\<close>

theorem Write_Read_round_trip:
  assumes "Write marshal d c r v fs = Some (None, d', fs')"
      and "\<And>b. marshal v = Inr b \<Longrightarrow> unmarshal b = Inr v"
  shows "Read unmarshal d' c r fs' = (Inr v, fs')"
proof -
  let ?fnl = "Join [Join [dir d, c], r]"
  let ?tmp = "?fnl @ ''.tmp''"
  from assms(1) obtain fss where ws: "Write_steps marshal d c r v fs = Some (None, d', fss)"
    and last: "fs' = last (fs # fss)"
    by (auto simp: Write_def)
  obtain b fs1 fs2 fs3 fs4 where s:
      "c \<noteq> []" "r \<noteq> []" "dir d' = dir d" "marshal v = Inr b" "fss = [fs1, fs2, fs3, fs4]"
      "open_trunc fs1 ?tmp = Inr fs2" "write_at fs2 ?tmp b = Inr fs3"
      "os_Rename fs3 ?tmp ?fnl = Inr fs4"
    using Write_steps_success[OF ws] by blast
  have fs': "fs' = fs4" using last s(5) by simp
  obtain p where p: "resolve fs1 ?tmp = Inr p" "lookup p (tree fs3) = Inr (File b)"
      "cwd fs3 = cwd fs1"
    using WriteFile_content[OF s(6,7)] by blast
  obtain po where po: "resolve fs3 ?tmp = Inr po" using os_Rename_resolves[OF s(8)] by blast
  have "po = p" using resolve_value[OF po] resolve_value[OF p(1)] p(3) by simp
  with p(2) have "lookup po (tree fs3) = Inr (File b)" by simp
  then obtain pn where pn: "resolve fs4 ?fnl = Inr pn" "lookup pn (tree fs4) = Inr (File b)"
    using os_Rename_file[OF s(8) po] by blast
  have name: "Join [dir d', c, r] = ?fnl" by (simp add: Join_Join s(3))
  have "os_Stat fs4 ?fnl = Inr (File b)" using pn by (simp add: os_Stat_def)
  moreover have "ioutil_ReadFile fs4 ?fnl = Inr b" using pn by (simp add: ioutil_ReadFile_def)
  moreover have "unmarshal b = Inr v" using assms(2) s(4) by blast
  ultimately show ?thesis using s(1,2) name fs' by (simp add: Read_def Let_def)
qed

text \<open>
  Writing the red fish to the example store and reading it back.
\<close>

theorem Write_Read_round_trip_witness:
  "\<exists>d'. Write marshal_Fish d_store ''fish'' ''redfish'' (Fish ''red'') fs_store =
           Some (None, d', fs_renamed) \<and>
        marshal_Fish (Fish ''red'') = Inr red_bytes \<and>
        unmarshal_Fish red_bytes = Inr (Fish ''red'') \<and>
        Read unmarshal_Fish d' ''fish'' ''redfish'' fs_renamed = (Inr (Fish ''red''), fs_renamed)"
proof -
  obtain d' where w: "Write marshal_Fish d_store ''fish'' ''redfish'' (Fish ''red'') fs_store =
      Some (None, d', fs_renamed)"
    using outcome_Some[OF Write_red] by blast
  have "Read unmarshal_Fish d' ''fish'' ''redfish'' fs_renamed = (Inr (Fish ''red''), fs_renamed)"
    using Write_Read_round_trip[OF w, of unmarshal_Fish] marshal_red unmarshal_red by simp
  then show ?thesis using w marshal_red unmarshal_red by blast
qed

text \<open>
  Claim C6: \<open>Write\<close> and \<open>Read\<close> with an empty collection or an empty resource,
  \<open>ReadAll\<close> with an empty collection, and \<open>ReadAll\<close> of a collection whose directory
  \<open>stat\<close> does not find, each return an error and leave the file system as it was (and
  \<open>Write\<close> the driver).
\<close>

theorem validation_no_side_effects:
  "(\<exists>e. Write marshal d [] r v fs = Some (Some e, d, fs)) \<and>
   (\<exists>e. Write marshal d c [] v fs = Some (Some e, d, fs)) \<and>
   (\<exists>e. Read unmarshal d [] r fs = (Inl e, fs)) \<and>
   (\<exists>e. Read unmarshal d c [] fs = (Inl e, fs)) \<and>
   (\<exists>e. ReadAll d [] fs = (Inl e, fs)) \<and>
   ((\<exists>e0. os_Stat fs (Join [dir d, c]) = Inl e0) \<longrightarrow> (\<exists>e. ReadAll d c fs = (Inl e, fs)))"
  by (auto simp: Write_def Write_steps_def Read_def ReadAll_def Let_def)

text \<open>
  The example store has no collection \<open>nothinghere\<close>.
\<close>

theorem validation_no_side_effects_witness:
  "os_Stat fs_store (Join [dir d_store, ''nothinghere'']) =
     Inl (PathError ''stat'' ''/tmp/db/nothinghere'' ENOENT) \<and>
   (\<exists>e. ReadAll d_store ''nothinghere'' fs_store = (Inl e, fs_store))"
  using validation_no_side_effects[where d = d_store and c = "''nothinghere''" and fs = fs_store
      and marshal = marshal_Fish and unmarshal = unmarshal_Fish and r = "''redfish''"
      and v = "Fish ''red''"]
    Stat_nothinghere by blast




text \<open>
  Claim C8, as the code has it, for a free lock. Let the collection pass \<open>Delete\<close>'s guard
  (it cleans to neither the root nor a dot), let cleaning it first not change the directory
  it is joined to, as is so for every collection that does not start with a slash, and let
  that directory's name end in an ordinary element. Then \<open>Delete\<close> with the empty resource
  returns, with success when the collection directory was there; afterwards \<open>stat\<close> does
  not find the directory, \<open>ReadAll\<close> returns the error that it does not exist, and no node
  is left at or below its path.
\<close>

theorem Delete_collection:
  assumes guard: "Clean c \<noteq> ''/''" "Clean c \<noteq> ''.''"
      and rel: "\<not> is_rooted c \<or> Join [dir d, Clean c] = Join [dir d, c]"
      and ord: "ordinary (Join [dir d, c])"
      and lock: "mutexes d (Clean c) \<noteq> Some Locked"
  shows "\<exists>e d' fs'. Delete d c [] fs = Some (e, d', fs') \<and>
           (\<forall>fi. os_Stat fs (Join [dir d, c]) = Inr fi \<longrightarrow> e = None) \<and>
           (\<exists>e0. os_Stat fs' (Join [dir d', c]) = Inl e0 \<and>
                 ReadAll d' c fs' =
                   (Inl (Errorf (''Directory '' @ [CHR 0x27] @ Join [dir d', c] @ [CHR 0x27] @
                                 '' does not exist - '' @ Error e0 @ ''!'')), fs')) \<and>
           (\<forall>p q. resolve fs' (Join [dir d', c]) = Inr p \<longrightarrow>
                  (\<exists>e1. lookup (p @ q) (tree fs') = Inl e1))"
proof -
  let ?name = "Join [dir d, c]"
  have cne: "c \<noteq> []" using guard(2) by (auto simp: Clean_Nil)
  have key: "Join [Clean c, Clean []] = Clean c" by (simp add: Clean_Nil Join_Clean_dot)
  have tgt: "Join [dir d, Clean c] = ?name"
    using rel Join_Clean_relative[OF _ cne, of "dir d"] by blast
  obtain d1 where g: "getOrCreateMutex d (Join [Clean c, Clean []]) = (Unlocked, d1)"
    and dd: "dir d1 = dir d"
    using getOrCreateMutex_free[of d "Join [Clean c, Clean []]"] lock key by auto
  note D = Delete_unfold[OF guard g dd, of fs, unfolded key tgt]
  obtain rt es where ok: "names_ok es" and form: "?name = render rt es"
    using Join_form[OF cne, of "dir d"] by blast
  show ?thesis
  proof (cases "os_Stat fs ?name")
    case (Inl err)
    then have "\<exists>e. Delete d c [] fs = Some (e, d1, fs)" using D by (simp split: if_splits)
    then obtain e where del: "Delete d c [] fs = Some (e, d1, fs)" by blast
    have "ReadAll d1 c fs =
        (Inl (Errorf (''Directory '' @ [CHR 0x27] @ Join [dir d1, c] @ [CHR 0x27] @
                      '' does not exist - '' @ Error err @ ''!'')), fs)"
      using ReadAll_missing[of c fs d1 err] cne Inl dd by simp
    moreover have "\<forall>p q. resolve fs (Join [dir d1, c]) = Inr p \<longrightarrow>
        (\<exists>e1. lookup (p @ q) (tree fs) = Inl e1)"
      using Stat_fails_below[OF Inl] dd by simp
    ultimately show ?thesis using del Inl dd by auto
  next
    case (Inr fi)
    then obtain p where p: "resolve fs ?name = Inr p" and l: "lookup p (tree fs) = Inr fi"
      using os_Stat_Inr by blast
    let ?fs1 = "fs\<lparr>tree := remove_node p (tree fs)\<rparr>"
    have rm: "os_RemoveAll fs ?name = (None, ?fs1)"
      and st: "os_Stat ?fs1 ?name = Inl (PathError ''stat'' ?name ENOENT)"
      using RemoveAll_ordinary[OF ok] ord p l unfolding form by blast+
    have del: "Delete d c [] fs = Some (None, d1, ?fs1)" using D Inr rm by simp
    have ra: "ReadAll d1 c ?fs1 =
        (Inl (Errorf (''Directory '' @ [CHR 0x27] @ Join [dir d1, c] @ [CHR 0x27] @
                      '' does not exist - '' @ Error (PathError ''stat'' ?name ENOENT) @ ''!'')), ?fs1)"
      using ReadAll_missing[of c ?fs1 d1] cne st dd by simp
    have below: "\<forall>p' q. resolve ?fs1 (Join [dir d1, c]) = Inr p' \<longrightarrow>
        (\<exists>e1. lookup (p' @ q) (tree ?fs1) = Inl e1)"
      using Stat_fails_below[OF st] dd by simp
    show ?thesis using del st ra below dd by auto
  qed
qed

text \<open>
  The claim as stated fails for each kind of collection that the theorem leaves out. The
  collections \<open>.\<close> and \<open>/\<close>, which \<open>Write\<close> accepts, are refused by \<open>Delete\<close>'s guard:
  the record written under them stays, and \<open>ReadAll\<close> returns it. For \<open>/../db/fish\<close> the directory
  that \<open>ReadAll\<close> reads is \<open>/tmp/db/fish\<close>, but \<open>Delete\<close> cleans the name first and
  looks at \<open>/tmp/db/db/fish\<close>: nothing is removed. For \<open>../..\<close> in the store \<open>/tmp/db\<close>
  the directory is the root, which cannot be removed, and for \<open>..\<close> and \<open>../..\<close> in the
  relative store \<open>db\<close> it is the dot, which \<open>RemoveAll\<close> refuses, and two dots, which it
  empties but cannot remove: \<open>Delete\<close> returns an error, and the directory is still there.
\<close>

theorem Delete_dot_collection_refused:
  "outcome (Write marshal_Fish d_store ''.'' ''fish'' (Fish ''red'') fs_root) = Some (None, fs_flat) \<and>
   outcome (Delete d_store ''.'' [] fs_flat) =
     Some (Some (Errorf ''Missing collection - no place to delete record!''), fs_flat) \<and>
   ReadAll d_store ''.'' fs_flat = (Inr [red_bytes], fs_flat) \<and>
   outcome (Write marshal_Fish d_store ''/'' ''fish'' (Fish ''red'') fs_root) = Some (None, fs_flat) \<and>
   outcome (Delete d_store ''/'' [] fs_flat) =
     Some (Some (Errorf ''Missing collection - no place to delete record!''), fs_flat) \<and>
   ReadAll d_store ''/'' fs_flat = (Inr [red_bytes], fs_flat) \<and>
   Join [dir d_store, ''/../db/fish''] = ''/tmp/db/fish'' \<and>
   Join [dir d_store, Clean ''/../db/fish''] = ''/tmp/db/db/fish'' \<and>
   outcome (Delete d_store ''/../db/fish'' [] fs_store) = Some (None, fs_store) \<and>
   ReadAll d_store ''/../db/fish'' fs_store = (Inr [''{}''], fs_store) \<and>
   Join [dir d_store, ''../..''] = ''/'' \<and>
   outcome (Delete d_store ''../..'' [] fs_store) =
     Some (Some (PathError ''unlinkat'' ''.//'' EBUSY), \<lparr>cwd = [], tree = Dir []\<rparr>) \<and>
   ReadAll d_store ''../..'' \<lparr>cwd = [], tree = Dir []\<rparr> = (Inr [], \<lparr>cwd = [], tree = Dir []\<rparr>) \<and>
   Join [dir d_rel, ''..''] = ''.'' \<and>
   outcome (Delete d_rel ''..'' [] fs_work) =
     Some (Some (PathError ''RemoveAll'' ''.'' EINVAL), fs_work) \<and>
   ReadAll d_rel ''..'' fs_work = (Inl (PathError ''read'' ''db'' EISDIR), fs_work) \<and>
   Join [dir d_rel, ''../..''] = ''..'' \<and>
   outcome (Delete d_rel ''../..'' [] fs_work) =
     Some (Some (PathError ''unlinkat'' ''./..'' ENOTEMPTY),
           \<lparr>cwd = [''work'', ''sub''], tree = Dir [(''work'', Dir [])]\<rparr>)"
  by code_simp

text \<open>Deleting the collection \<open>fish\<close> of the example store.\<close>

theorem Delete_collection_witness:
  "Clean ''fish'' \<noteq> ''/'' \<and> Clean ''fish'' \<noteq> ''.'' \<and> \<not> is_rooted ''fish'' \<and>
   ordinary (Join [dir d_store, ''fish'']) \<and> mutexes d_store (Clean ''fish'') \<noteq> Some Locked \<and>
   os_Stat fs_store (Join [dir d_store, ''fish'']) = Inr (Dir [(''redfish'', File ''{}'')]) \<and>
   (\<exists>d' fs'. Delete d_store ''fish'' [] fs_store = Some (None, d', fs') \<and>
      tree fs' = Dir [(''tmp'', Dir [(''db'', Dir [(''other'', Dir [])])])] \<and>
      (\<exists>msg. ReadAll d' ''fish'' fs' = (Inl (Errorf msg), fs')))"
proof -
  obtain d0 where d0: "Delete d_store ''fish'' [] fs_store =
      Some (None, d0, \<lparr>cwd = [], tree = Dir [(''tmp'', Dir [(''db'', Dir [(''other'', Dir [])])])]\<rparr>)"
    using outcome_Some[OF Delete_fish_outcome] by blast
  have g: "Clean ''fish'' \<noteq> ''/''" "Clean ''fish'' \<noteq> ''.''" unfolding Clean_fish by simp_all
  have l: "mutexes d_store (Clean ''fish'') \<noteq> Some Locked" by (simp add: d_store_no_mutex)
  show ?thesis
    using Delete_collection[OF g _ ordinary_fish l, of fs_store] not_rooted_fish d0 g l ordinary_fish
    unfolding name_fish Stat_fish by auto
qed

text \<open>
  Claim C9, as the code has it, for a free lock and a root that is cleaned, as \<open>New\<close>
  stores it. Whenever the cleaned join of the collection and the resource is the dot, as it
  is for every collection that cleans to one segment with a resource that cleans to \<open>..\<close>,
  the target of \<open>Delete\<close> is the database root itself; when the root exists and its name
  ends in an ordinary element, \<open>Delete\<close> succeeds and removes the root with everything
  below it.
\<close>

theorem Delete_dotdot_removes_root:
  assumes key: "segment (Clean c) \<and> Clean r = ''..'' \<or>
                Clean c \<noteq> ''.'' \<and> Join [Clean c, Clean r] = ''.''"
      and root: "Clean (dir d) = dir d"
      and lock: "mutexes d ''.'' \<noteq> Some Locked"
      and res: "resolve fs (dir d) = Inr p" and l: "lookup p (tree fs) = Inr n"
      and ord: "ordinary (dir d)"
  shows "Join [dir d, Join [Clean c, Clean r]] = dir d \<and>
         (\<exists>d'. Delete d c r fs = Some (None, d', fs\<lparr>tree := remove_node p (tree fs)\<rparr>)) \<and>
         (\<forall>q. lookup (p @ q) (remove_node p (tree fs)) = Inl ENOENT)"
proof -
  have k: "Join [Clean c, Clean r] = ''.''"
    using key Join_segment_dotdot[of "Clean c"] by auto
  have g2: "Clean c \<noteq> ''.''" using key by (auto simp: segment_def)
  have g1: "Clean c \<noteq> ''/''"
  proof
    assume "Clean c = ''/''"
    then have "is_rooted (Clean c)" by (simp add: is_rooted_def)
    then show False using Join_rooted_not_dot[of "Clean c" "Clean r"] k by simp
  qed
  have name: "Join [dir d, ''.''] = dir d" using Join_root_dot[OF root] .
  obtain d1 where g: "getOrCreateMutex d (Join [Clean c, Clean r]) = (Unlocked, d1)"
    and dd: "dir d1 = dir d"
    using getOrCreateMutex_free[of d "Join [Clean c, Clean r]"] lock k by auto
  note D = Delete_unfold[OF g1 g2 g dd, of fs, unfolded k name]
  obtain rt es where ok: "names_ok es" and form: "dir d = render rt es"
    using Clean_form[of "dir d"] root by auto
  have st: "os_Stat fs (dir d) = Inr n" using res l os_Stat_Inr by blast
  have pne: "p \<noteq> []"
    and rm: "os_RemoveAll fs (dir d) = (None, fs\<lparr>tree := remove_node p (tree fs)\<rparr>)"
    using RemoveAll_ordinary[OF ok] ord res l unfolding form by blast+
  have "Delete d c r fs = Some (None, d1, fs\<lparr>tree := remove_node p (tree fs)\<rparr>)"
    using D st rm by simp
  moreover have "\<forall>q. lookup (p @ q) (remove_node p (tree fs)) = Inl ENOENT"
    using lookup_remove_node[OF l pne] by blast
  ultimately show ?thesis using k name by auto
qed

text \<open>
  The claim as stated fails in each case that the theorem leaves out. A resource that
  escapes the collection sideways does not collapse the target to the root: for
  \<open>../other\<close> the target is the sibling \<open>/tmp/db/other\<close>, and the store stays. With the
  collection \<open>fish/x\<close> of two segments the resource \<open>..\<close> names the directory
  \<open>/tmp/db/fish\<close>, and the store stays. And the stores \<open>.\<close> and \<open>..\<close>, which \<open>New\<close>
  accepts, are not removed: \<open>RemoveAll\<close> refuses the dot, and it empties the directory of
  the two dots but cannot remove it, so that \<open>Delete\<close> returns an error.
\<close>

theorem Delete_sideways_keeps_root:
  "outcome (Delete d_store ''fish'' ''../other'' fs_store) =
     Some (None, \<lparr>cwd = [], tree = Dir [(''tmp'', Dir [(''db'',
        Dir [(''fish'', Dir [(''redfish'', File ''{}'')])])])]\<rparr>) \<and>
   Join [dir d_store, Join [Clean ''fish'', Clean ''../other'']] = ''/tmp/db/other'' \<and>
   outcome (Delete d_store ''fish/x'' ''..'' fs_store) =
     Some (None, \<lparr>cwd = [], tree = Dir [(''tmp'', Dir [(''db'', Dir [(''other'', Dir [])])])]\<rparr>) \<and>
   Join [dir d_store, Join [Clean ''fish/x'', Clean ''..'']] = ''/tmp/db/fish'' \<and>
   \<not> unsafe_root (Clean ''.'') \<and> dir d_dot = Clean ''.'' \<and>
   outcome (Delete d_dot ''fish'' ''..'' fs_work) =
     Some (Some (PathError ''RemoveAll'' ''.'' EINVAL), fs_work) \<and>
   \<not> unsafe_root (Clean ''..'') \<and> dir d_up = Clean ''..'' \<and>
   outcome (Delete d_up ''fish'' ''..'' fs_work) =
     Some (Some (PathError ''unlinkat'' ''./..'' ENOTEMPTY),
           \<lparr>cwd = [''work'', ''sub''], tree = Dir [(''work'', Dir [])]\<rparr>)"
  by code_simp

text \<open>\<open>Delete\<close> of \<open>fish\<close> and \<open>..\<close> removes the example store \<open>/tmp/db\<close>.\<close>

theorem Delete_dotdot_removes_root_witness:
  "segment (Clean ''fish'') \<and> Clean ''..'' = ''..'' \<and> Clean (dir d_store) = dir d_store \<and>
   mutexes d_store ''.'' \<noteq> Some Locked \<and>
   resolve fs_store (dir d_store) = Inr [''tmp'', ''db''] \<and>
   ordinary (dir d_store) \<and>
   (\<exists>d'. Delete d_store ''fish'' ''..'' fs_store =
      Some (None, d', fs_store\<lparr>tree := Dir [(''tmp'', Dir [])]\<rparr>))"
proof -
  have k: "segment (Clean ''fish'') \<and> Clean ''..'' = ''..'' \<or>
           Clean ''fish'' \<noteq> ''.'' \<and> Join [Clean ''fish'', Clean ''..''] = ''.''"
    using segment_fish Clean_dotdot unfolding Clean_fish by simp
  have l: "mutexes d_store ''.'' \<noteq> Some Locked" by (simp add: d_store_no_mutex)
  show ?thesis
    using Delete_dotdot_removes_root[OF k Clean_store_root l resolve_store_root lookup_store_root
        ordinary_store_root]
      segment_fish Clean_dotdot Clean_store_root l resolve_store_root ordinary_store_root
    unfolding remove_store_root Clean_fish by simp
qed

text \<open>
  Claim C10: on a path that passes the guard \<open>New\<close> always returns a driver; when the root
  cannot be found and creating it fails, the driver comes with the creation error, and the
  file system is as before, so the root is still missing.
\<close>

theorem New_returns_driver:
  assumes "\<not> unsafe_root (Clean dir0)"
  shows "(\<exists>drv. fst (New dir0 fs) = Some drv) \<and>
         (\<forall>e0 e. os_Stat fs (Clean dir0) = Inl e0 \<longrightarrow> os_MkdirAll fs (Clean dir0) = Inl e \<longrightarrow>
            New dir0 fs = (Some \<lparr>mutexes = Map.empty, dir = Clean dir0\<rparr>, Some e, fs))"
  using assms by (auto simp: New_def Let_def split: sum.splits)

text \<open>A regular file \<open>/tmp/file\<close> stands in the way of the root \<open>/tmp/file/db\<close>.\<close>

theorem New_returns_driver_witness:
  "\<not> unsafe_root (Clean ''/tmp/file/db'') \<and>
   os_Stat fs_blocked (Clean ''/tmp/file/db'') = Inl (PathError ''stat'' ''/tmp/file/db'' ENOTDIR) \<and>
   New ''/tmp/file/db'' fs_blocked =
     (Some \<lparr>mutexes = Map.empty, dir = ''/tmp/file/db''\<rparr>,
      Some (PathError ''mkdir'' ''/tmp/file'' ENOTDIR), fs_blocked)"
  using New_returns_driver[of "''/tmp/file/db''" fs_blocked] blocked_root_safe Stat_blocked_root MkdirAll_blocked_root
  unfolding Clean_blocked_root by simp

end
